theory Spec2Isabelle
  imports Main "HOL-Library.AList"
begin

section \<open>The UTM builder core of \<^verbatim>\<open>utm_builder.py\<close>\<close>

text \<open>
  The core of the program is \<^verbatim>\<open>normalize_pair\<close> and \<^verbatim>\<open>build_utm_url\<close>. Both are
  pure functions over Python strings and dictionaries; \<^verbatim>\<open>build_utm_url\<close> calls
  \<^verbatim>\<open>urlparse\<close>, \<^verbatim>\<open>parse_qsl\<close>, \<^verbatim>\<open>urlencode\<close>, \<^verbatim>\<open>quote_plus\<close> and \<^verbatim>\<open>urlunparse\<close> of
  \<^verbatim>\<open>urllib.parse\<close>, which are embedded here as CPython 3.11 defines them.

  A Python string is a \<^typ>\<open>string\<close>, read as a sequence of code points below 128.
  What the library does beyond ASCII (Unicode case mapping and white space, UTF-8 in
  percent escapes, the NFKC check of a non-ASCII authority) is not part of the
  embedding; the predicate \<open>ascii\<close> below marks the strings the embedding speaks about.
  A dictionary is an association list with distinct keys in insertion order, stored
  into with \<^const>\<open>AList.update\<close>: an existing key keeps its place, a new key goes last.
\<close>

subsection \<open>String primitives\<close>

text \<open>\<^verbatim>\<open>s.isascii()\<close>\<close>

definition ascii :: "string \<Rightarrow> bool" where
  "ascii s = list_all (\<lambda>c. (of_char c :: nat) < 128) s"

text \<open>\<^verbatim>\<open>sub in s\<close>\<close>

fun str_contains :: "string \<Rightarrow> string \<Rightarrow> bool" where
  "str_contains sub [] = (sub = [])"
| "str_contains sub (c # cs) = (take (length sub) (c # cs) = sub \<or> str_contains sub cs)"

text \<open>\<^verbatim>\<open>s.find(c)\<close> for a single character: \<open>None\<close> stands for \<open>-1\<close>.\<close>

fun str_find :: "char \<Rightarrow> string \<Rightarrow> nat option" where
  "str_find c [] = None"
| "str_find c (x # xs) =
     (if x = c then Some 0
      else case str_find c xs of None \<Rightarrow> None | Some i \<Rightarrow> Some (Suc i))"

text \<open>\<^verbatim>\<open>s.find(c, start)\<close>\<close>

definition str_find_from :: "char \<Rightarrow> string \<Rightarrow> nat \<Rightarrow> nat option" where
  "str_find_from c s start =
     (case str_find c (drop start s) of None \<Rightarrow> None | Some i \<Rightarrow> Some (start + i))"

text \<open>\<^verbatim>\<open>s.rfind(c)\<close>\<close>

definition str_rfind :: "char \<Rightarrow> string \<Rightarrow> nat option" where
  "str_rfind c s =
     (case str_find c (rev s) of None \<Rightarrow> None | Some i \<Rightarrow> Some (length s - Suc i))"

text \<open>\<^verbatim>\<open>s.partition(c)\<close>: the part before the first \<open>c\<close>, whether \<open>c\<close> occurs, the part after.\<close>

definition str_partition :: "char \<Rightarrow> string \<Rightarrow> string \<times> bool \<times> string" where
  "str_partition c s =
     (case str_find c s of
        None \<Rightarrow> (s, False, [])
      | Some i \<Rightarrow> (take i s, True, drop (Suc i) s))"

text \<open>\<^verbatim>\<open>s.split(c)\<close>\<close>

fun str_split :: "char \<Rightarrow> string \<Rightarrow> string list" where
  "str_split c [] = [[]]"
| "str_split c (x # xs) =
     (if x = c then [] # str_split c xs
      else case str_split c xs of
             [] \<Rightarrow> [[x]]
           | w # ws \<Rightarrow> (x # w) # ws)"

text \<open>\<^verbatim>\<open>sep.join(xs)\<close>\<close>

fun str_join :: "string \<Rightarrow> string list \<Rightarrow> string" where
  "str_join sep [] = []"
| "str_join sep [x] = x"
| "str_join sep (x # y # ys) = x @ sep @ str_join sep (y # ys)"

text \<open>\<^verbatim>\<open>s.replace(a, b)\<close> for single characters, and \<^verbatim>\<open>s.replace(a, "")\<close>.\<close>

definition str_replace :: "char \<Rightarrow> char \<Rightarrow> string \<Rightarrow> string" where
  "str_replace a b s = map (\<lambda>c. if c = a then b else c) s"

definition str_remove :: "char \<Rightarrow> string \<Rightarrow> string" where
  "str_remove a s = filter (\<lambda>c. c \<noteq> a) s"

text \<open>\<^verbatim>\<open>s.lstrip(chars)\<close>\<close>

definition str_lstrip :: "(char \<Rightarrow> bool) \<Rightarrow> string \<Rightarrow> string" where
  "str_lstrip P s = dropWhile P s"

text \<open>
  \<^verbatim>\<open>c.isspace()\<close> on ASCII: tab, line feed, vertical tab, form feed, carriage return,
  the four separators \<open>0x1C\<close> to \<open>0x1F\<close>, and the space.
\<close>

definition isspace :: "char \<Rightarrow> bool" where
  "isspace c =
     (c \<in> set [CHR 0x09, CHR 0x0A, CHR 0x0B, CHR 0x0C, CHR 0x0D,
               CHR 0x1C, CHR 0x1D, CHR 0x1E, CHR 0x1F, CHR 0x20])"

text \<open>\<^verbatim>\<open>s.strip()\<close>\<close>

definition str_strip :: "string \<Rightarrow> string" where
  "str_strip s = rev (dropWhile isspace (rev (dropWhile isspace s)))"

definition ascii_lowercase :: string where
  "ascii_lowercase = ''abcdefghijklmnopqrstuvwxyz''"

definition ascii_uppercase :: string where
  "ascii_uppercase = ''ABCDEFGHIJKLMNOPQRSTUVWXYZ''"

definition digits :: string where
  "digits = ''0123456789''"

text \<open>\<^verbatim>\<open>s.lower()\<close> on ASCII\<close>

definition lower_char :: "char \<Rightarrow> char" where
  "lower_char c =
     (case map_of (zip ascii_uppercase ascii_lowercase) c of None \<Rightarrow> c | Some l \<Rightarrow> l)"

definition str_lower :: "string \<Rightarrow> string" where
  "str_lower s = map lower_char s"

subsection \<open>\<^verbatim>\<open>urllib.parse\<close>: quoting\<close>

definition always_safe :: string where
  "always_safe = ascii_uppercase @ ascii_lowercase @ digits @ ''_.-~''"

text \<open>The \<^verbatim>\<open>_Quoter\<close> table: a safe byte stands for itself, any other is \<^verbatim>\<open>'%{:02X}'.format(b)\<close>.\<close>

definition quoter :: "string \<Rightarrow> char \<Rightarrow> string" where
  "quoter safe c =
     (if c \<in> set (always_safe @ safe) then [c]
      else [CHR ''%'', ''0123456789ABCDEF'' ! ((of_char c :: nat) div 16),
                      ''0123456789ABCDEF'' ! ((of_char c :: nat) mod 16)])"

definition str_rstrip :: "(char \<Rightarrow> bool) \<Rightarrow> string \<Rightarrow> string" where
  "str_rstrip P s = rev (dropWhile P (rev s))"

definition quote_from_bytes :: "string \<Rightarrow> string \<Rightarrow> string" where
  "quote_from_bytes bs safe =
     (if bs = [] then []
      else if str_rstrip (\<lambda>c. c \<in> set (always_safe @ safe)) bs = [] then bs
      else concat (map (quoter safe) bs))"

text \<open>\<^verbatim>\<open>quote(string, safe)\<close>; the UTF-8 encoding of an ASCII string is the string.\<close>

definition quote :: "string \<Rightarrow> string \<Rightarrow> string" where
  "quote s safe = (if s = [] then s else quote_from_bytes s safe)"

definition quote_plus :: "string \<Rightarrow> string" where
  "quote_plus s =
     (if CHR '' '' \<notin> set s then quote s []
      else str_replace (CHR '' '') (CHR ''+'') (quote s '' ''))"

text \<open>
  \<^verbatim>\<open>urlencode(query, doseq=True, quote_via=quote_plus)\<close> on a dictionary whose keys and
  values are strings.
\<close>

definition urlencode :: "(string \<times> string) list \<Rightarrow> string" where
  "urlencode q = str_join ''&'' (map (\<lambda>(k, v). quote_plus k @ ''='' @ quote_plus v) q)"

subsection \<open>\<^verbatim>\<open>urllib.parse\<close>: unquoting and \<^verbatim>\<open>parse_qsl\<close>\<close>

definition hexdig :: string where
  "hexdig = ''0123456789ABCDEFabcdef''"

definition hex_value :: "char \<Rightarrow> nat option" where
  "hex_value c =
     map_of (zip hexdig [0, 1, 2, 3, 4, 5, 6, 7, 8, 9, 10, 11, 12, 13, 14, 15,
                         10, 11, 12, 13, 14, 15]) c"

text \<open>The \<^verbatim>\<open>_hextobyte\<close> table: defined on two hexadecimal digits only.\<close>

definition hextobyte :: "string \<Rightarrow> char option" where
  "hextobyte h =
     (case h of
        [a, b] \<Rightarrow>
          (case hex_value a of
             None \<Rightarrow> None
           | Some x \<Rightarrow> (case hex_value b of
                          None \<Rightarrow> None
                        | Some y \<Rightarrow> Some (char_of (16 * x + y))))
      | _ \<Rightarrow> None)"

text \<open>One \<open>item\<close> of the loop of \<^verbatim>\<open>unquote_to_bytes\<close>; the \<open>KeyError\<close> branch keeps the \<open>%\<close>.\<close>

definition unquote_item :: "string \<Rightarrow> string" where
  "unquote_item item =
     (case hextobyte (take 2 item) of
        Some b \<Rightarrow> b # drop 2 item
      | None \<Rightarrow> CHR ''%'' # item)"

definition unquote_to_bytes :: "string \<Rightarrow> string" where
  "unquote_to_bytes s =
     (if s = [] then []
      else case str_split (CHR ''%'') s of
             [] \<Rightarrow> s
           | [b] \<Rightarrow> s
           | b # items \<Rightarrow> b @ concat (map unquote_item items))"

text \<open>
  \<^verbatim>\<open>unquote(string)\<close>: an ASCII string is one run of \<^verbatim>\<open>_asciire\<close>, unquoted to bytes and
  decoded as UTF-8. Decoding is the identity on bytes below 128; an escape of a byte
  from 128 on is beyond the embedding, which leaves that byte as it is.
\<close>

definition unquote :: "string \<Rightarrow> string" where
  "unquote s = (if CHR ''%'' \<notin> set s then s else unquote_to_bytes s)"

definition unquote_plus :: "string \<Rightarrow> string" where
  "unquote_plus s = unquote (str_replace (CHR ''+'') (CHR '' '') s)"

text \<open>The loop of \<^verbatim>\<open>parse_qsl\<close> over the fields, with \<^verbatim>\<open>strict_parsing=False\<close>.\<close>

fun parse_fields :: "bool \<Rightarrow> string list \<Rightarrow> (string \<times> string) list" where
  "parse_fields keep_blank_values [] = []"
| "parse_fields keep_blank_values (name_value # rest) =
     (if name_value \<noteq> [] then
        (case str_partition (CHR ''='') name_value of
           (name, has_eq, val) \<Rightarrow>
             if val \<noteq> [] \<or> keep_blank_values
             then (unquote_plus name, unquote_plus val) # parse_fields keep_blank_values rest
             else parse_fields keep_blank_values rest)
      else parse_fields keep_blank_values rest)"

definition parse_qsl :: "string \<Rightarrow> bool \<Rightarrow> (string \<times> string) list" where
  "parse_qsl qs keep_blank_values =
     (if qs = [] then [] else parse_fields keep_blank_values (str_split (CHR ''&'') qs))"

subsection \<open>\<^verbatim>\<open>urllib.parse\<close>: splitting and joining a URL\<close>

text \<open>
  A \<^verbatim>\<open>ValueError\<close> is the only exception of the core. The two raised by
  \<^verbatim>\<open>build_utm_url\<close> itself are \<^verbatim>\<open>ValueError("Base URL is required.")\<close>, here
  \<open>EmptyBaseURLError\<close>, and \<^verbatim>\<open>ValueError("Base URL seems invalid. ...")\<close>, here
  \<open>InvalidBaseURLError\<close>; one raised inside \<^verbatim>\<open>urlparse\<close> (a malformed bracketed host)
  passes through \<^verbatim>\<open>build_utm_url\<close> and is \<open>UrlparseValueError\<close>.
\<close>

datatype error = EmptyBaseURLError | InvalidBaseURLError | UrlparseValueError

record parse_result =
  scheme :: string
  netloc :: string
  path :: string
  params :: string
  query :: string
  fragment :: string

definition uses_netloc :: "string list" where
  "uses_netloc = ['''', ''ftp'', ''http'', ''gopher'', ''nntp'', ''telnet'',
                  ''imap'', ''wais'', ''file'', ''mms'', ''https'', ''shttp'',
                  ''snews'', ''prospero'', ''rtsp'', ''rtsps'', ''rtspu'', ''rsync'',
                  ''svn'', ''svn+ssh'', ''sftp'', ''nfs'', ''git'', ''git+ssh'',
                  ''ws'', ''wss'']"

definition uses_params :: "string list" where
  "uses_params = ['''', ''ftp'', ''hdl'', ''prospero'', ''http'', ''imap'',
                  ''https'', ''shttp'', ''rtsp'', ''rtsps'', ''rtspu'', ''sip'',
                  ''sips'', ''mms'', ''sftp'', ''tel'']"

definition scheme_chars :: string where
  "scheme_chars = ascii_lowercase @ ascii_uppercase @ digits @ ''+-.''"

text \<open>\<^verbatim>\<open>_WHATWG_C0_CONTROL_OR_SPACE\<close>: the characters from \<open>0x00\<close> to \<open>0x20\<close>.\<close>

definition c0_control_or_space :: "char \<Rightarrow> bool" where
  "c0_control_or_space c = ((of_char c :: nat) \<le> 32)"

definition unsafe_url_bytes_to_remove :: string where
  "unsafe_url_bytes_to_remove = [CHR 0x09, CHR 0x0D, CHR 0x0A]"

text \<open>\<^verbatim>\<open>c.isascii() and c.isalpha()\<close>\<close>

definition isascii_alpha :: "char \<Rightarrow> bool" where
  "isascii_alpha c = (c \<in> set (ascii_lowercase @ ascii_uppercase))"

text \<open>
  \<^verbatim>\<open>_splitparams\<close>. The test \<^verbatim>\<open>'/' in url\<close> is the case that \<^verbatim>\<open>url.rfind('/')\<close> finds a
  slash. The last branch is \<^verbatim>\<open>url[:-1], url[0:]\<close>, what the slices give for \<open>i = -1\<close>;
  \<^verbatim>\<open>urlparse\<close> calls the function only on a \<open>url\<close> with a semicolon.
\<close>

definition splitparams :: "string \<Rightarrow> string \<times> string" where
  "splitparams url =
     (case str_rfind (CHR ''/'') url of
        Some j \<Rightarrow>
          (case str_find_from (CHR '';'') url j of
             None \<Rightarrow> (url, [])
           | Some i \<Rightarrow> (take i url, drop (Suc i) url))
      | None \<Rightarrow>
          (case str_find (CHR '';'') url of
             None \<Rightarrow> (butlast url, url)
           | Some i \<Rightarrow> (take i url, drop (Suc i) url)))"

definition splitnetloc :: "string \<Rightarrow> nat \<Rightarrow> string \<times> string" where
  "splitnetloc url start =
     (let delim = fold (\<lambda>c delim. case str_find_from c url start of
                                      None \<Rightarrow> delim
                                    | Some wdelim \<Rightarrow> min delim wdelim)
                       ''/?#'' (length url)
      in (drop start (take delim url), drop delim url))"

text \<open>
  \<^verbatim>\<open>_check_bracketed_host\<close>: \<open>True\<close> when it returns, \<open>False\<close> when it raises. A host
  starting with \<open>v\<close> must match \<^verbatim>\<open>\Av[a-fA-F0-9]+\..+\Z\<close>. Any other host goes to the
  \<^verbatim>\<open>ipaddress\<close> module, which is not embedded: the parameter \<open>is_ipv6\<close> says of a string
  whether \<^verbatim>\<open>ipaddress.ip_address\<close> reads it as an IPv6 address.
\<close>

definition ipvfuture_match :: "string \<Rightarrow> bool" where
  "ipvfuture_match hostname =
     (case hostname of
        [] \<Rightarrow> False
      | v # t \<Rightarrow>
          v = CHR ''v'' \<and> takeWhile (\<lambda>c. c \<in> set hexdig) t \<noteq> [] \<and>
          (case dropWhile (\<lambda>c. c \<in> set hexdig) t of
             [] \<Rightarrow> False
           | d # rest \<Rightarrow> d = CHR ''.'' \<and> rest \<noteq> [] \<and> CHR 0x0A \<notin> set rest))"

definition check_bracketed_host :: "(string \<Rightarrow> bool) \<Rightarrow> string \<Rightarrow> bool" where
  "check_bracketed_host is_ipv6 hostname =
     (if take 1 hostname = ''v'' then ipvfuture_match hostname else is_ipv6 hostname)"

text \<open>The scheme step of \<^verbatim>\<open>urlsplit\<close>: the scheme found and the rest of the URL.\<close>

definition split_scheme :: "string \<Rightarrow> string \<times> string" where
  "split_scheme url =
     (case str_find (CHR '':'') url of
        None \<Rightarrow> ([], url)
      | Some i \<Rightarrow>
          if 0 < i \<and> isascii_alpha (url ! 0) \<and> list_all (\<lambda>c. c \<in> set scheme_chars) (take i url)
          then (str_lower (take i url), drop (Suc i) url)
          else ([], url))"

text \<open>
  The end of \<^verbatim>\<open>urlsplit\<close>: fragment, then query. \<^verbatim>\<open>_checknetloc\<close> returns at once on an
  ASCII authority.
\<close>

definition split_fragment_query ::
  "string \<Rightarrow> string \<Rightarrow> string \<Rightarrow> string \<times> string \<times> string \<times> string \<times> string" where
  "split_fragment_query sch nl url0 =
     (let (url, frag) = (if CHR ''#'' \<in> set url0
                         then (case str_partition (CHR ''#'') url0 of (a, _, b) \<Rightarrow> (a, b))
                         else (url0, []));
          (url, qry) = (if CHR ''?'' \<in> set url
                        then (case str_partition (CHR ''?'') url of (a, _, b) \<Rightarrow> (a, b))
                        else (url, []))
      in (sch, nl, url, qry, frag))"

definition bracketed_host :: "string \<Rightarrow> string" where
  "bracketed_host nl =
     (case str_partition (CHR ''['') nl of
        (_, _, after) \<Rightarrow> (case str_partition (CHR '']'') after of (host, _, _) \<Rightarrow> host))"

definition urlsplit ::
  "(string \<Rightarrow> bool) \<Rightarrow> string \<Rightarrow> error + string \<times> string \<times> string \<times> string \<times> string" where
  "urlsplit is_ipv6 url0 =
     (let url = str_lstrip c0_control_or_space url0;
          url = fold str_remove unsafe_url_bytes_to_remove url;
          (sch, url) = split_scheme url
      in if take 2 url = ''//'' then
           (let (nl, url) = splitnetloc url 2
            in if (CHR ''['' \<in> set nl \<and> CHR '']'' \<notin> set nl) \<or>
                  (CHR '']'' \<in> set nl \<and> CHR ''['' \<notin> set nl)
               then Inl UrlparseValueError
               else if CHR ''['' \<in> set nl \<and> CHR '']'' \<in> set nl \<and>
                       \<not> check_bracketed_host is_ipv6 (bracketed_host nl)
               then Inl UrlparseValueError
               else Inr (split_fragment_query sch nl url))
         else Inr (split_fragment_query sch [] url))"

definition urlparse :: "(string \<Rightarrow> bool) \<Rightarrow> string \<Rightarrow> error + parse_result" where
  "urlparse is_ipv6 url0 =
     (case urlsplit is_ipv6 url0 of
        Inl e \<Rightarrow> Inl e
      | Inr (sch, nl, url, qry, frag) \<Rightarrow>
          (let (url, prm) = (if sch \<in> set uses_params \<and> CHR '';'' \<in> set url
                             then splitparams url else (url, []))
           in Inr \<lparr>scheme = sch, netloc = nl, path = url, params = prm,
                    query = qry, fragment = frag\<rparr>))"

definition urlunsplit :: "string \<Rightarrow> string \<Rightarrow> string \<Rightarrow> string \<Rightarrow> string \<Rightarrow> string" where
  "urlunsplit sch nl url0 qry frag =
     (let url = (if nl \<noteq> [] \<or> (sch \<noteq> [] \<and> sch \<in> set uses_netloc) \<or> take 2 url0 = ''//''
                 then ''//'' @ nl @
                      (if url0 \<noteq> [] \<and> take 1 url0 \<noteq> ''/'' then ''/'' @ url0 else url0)
                 else url0);
          url = (if sch \<noteq> [] then sch @ '':'' @ url else url);
          url = (if qry \<noteq> [] then url @ ''?'' @ qry else url);
          url = (if frag \<noteq> [] then url @ ''#'' @ frag else url)
      in url)"

definition urlunparse :: "parse_result \<Rightarrow> string" where
  "urlunparse p =
     urlunsplit (scheme p) (netloc p)
       (if params p \<noteq> [] then path p @ '';'' @ params p else path p)
       (query p) (fragment p)"

subsection \<open>The core: \<^verbatim>\<open>normalize_pair\<close> and \<^verbatim>\<open>build_utm_url\<close>\<close>

text \<open>The inner function \<^verbatim>\<open>transform\<close> of \<^verbatim>\<open>normalize_pair\<close>; \<open>None\<close> is Python's \<^verbatim>\<open>None\<close>.\<close>

definition transform :: "bool \<Rightarrow> string \<Rightarrow> string option \<Rightarrow> string option" where
  "transform force_lower space_mode s0 =
     (case s0 of
        None \<Rightarrow> None
      | Some s \<Rightarrow>
          (let s = str_strip s;
               s = (if force_lower then str_lower s else s);
               s = (if space_mode = ''underscore'' then str_replace (CHR '' '') (CHR ''_'') s
                    else if space_mode = ''dash'' then str_replace (CHR '' '') (CHR ''-'') s
                    else s)
           in Some s))"

definition normalize_pair ::
  "string option \<Rightarrow> string option \<Rightarrow> bool \<Rightarrow> string \<Rightarrow> string option \<times> string option" where
  "normalize_pair k v force_lower space_mode =
     (transform force_lower space_mode k, transform force_lower space_mode v)"

text \<open>The first loop of \<^verbatim>\<open>build_utm_url\<close>: the dictionary \<open>existing\<close>.\<close>

definition existing_params :: "bool \<Rightarrow> parse_result \<Rightarrow> (string \<times> string) list" where
  "existing_params merge_existing parsed =
     (if merge_existing \<and> query parsed \<noteq> []
      then fold (\<lambda>(k, v) existing. AList.update k v existing) (parse_qsl (query parsed) True) []
      else [])"

text \<open>
  The second loop: the dictionary \<open>utm\<close>, over \<^verbatim>\<open>pairs.items()\<close>. A value of \<open>pairs\<close> is
  a string or \<^verbatim>\<open>None\<close>.
\<close>

fun utm_params ::
  "bool \<Rightarrow> string \<Rightarrow> bool \<Rightarrow> (string \<times> string) list \<Rightarrow> (string \<times> string option) list \<Rightarrow>
   (string \<times> string) list \<Rightarrow> (string \<times> string) list" where
  "utm_params force_lower space_mode override_existing existing [] utm = utm"
| "utm_params force_lower space_mode override_existing existing ((k, v) # rest) utm =
     (if v = None \<or> v = Some [] then
        utm_params force_lower space_mode override_existing existing rest utm
      else
        (case normalize_pair (Some k) v force_lower space_mode of
           (Some nk, Some nv) \<Rightarrow>
             if nk = [] \<or> nv = [] then
               utm_params force_lower space_mode override_existing existing rest utm
             else if override_existing \<or> nk \<notin> set (map fst existing) then
               utm_params force_lower space_mode override_existing existing rest
                 (AList.update nk nv utm)
             else utm_params force_lower space_mode override_existing existing rest utm
         | _ \<Rightarrow> utm_params force_lower space_mode override_existing existing rest utm))"

text \<open>
  The query string built for the parsed base: \<open>final\<close> is a copy of \<open>existing\<close> updated
  with \<open>utm\<close>, and \<open>new_query\<close> its encoding.
\<close>

definition final_params ::
  "parse_result \<Rightarrow> (string \<times> string option) list \<Rightarrow> bool \<Rightarrow> string \<Rightarrow> bool \<Rightarrow> bool \<Rightarrow>
   (string \<times> string) list" where
  "final_params parsed pairs force_lower space_mode merge_existing override_existing =
     (let existing = existing_params merge_existing parsed;
          utm = utm_params force_lower space_mode override_existing existing pairs []
      in fold (\<lambda>(k, v) final. AList.update k v final) utm existing)"

definition new_query ::
  "parse_result \<Rightarrow> (string \<times> string option) list \<Rightarrow> bool \<Rightarrow> string \<Rightarrow> bool \<Rightarrow> bool \<Rightarrow> string" where
  "new_query parsed pairs force_lower space_mode merge_existing override_existing =
     urlencode (final_params parsed pairs force_lower space_mode merge_existing override_existing)"

text \<open>\<^verbatim>\<open>base_url if "://" in base_url else "https://" + base_url\<close>\<close>

definition with_scheme :: "string \<Rightarrow> string" where
  "with_scheme base_url =
     (if str_contains ''://'' base_url then base_url else ''https://'' @ base_url)"

definition build_utm_url ::
  "(string \<Rightarrow> bool) \<Rightarrow> string \<Rightarrow> (string \<times> string option) list \<Rightarrow> bool \<Rightarrow> string \<Rightarrow> bool \<Rightarrow> bool \<Rightarrow>
   error + string" where
  "build_utm_url is_ipv6 base_url pairs force_lower space_mode merge_existing override_existing =
     (if base_url = [] then Inl EmptyBaseURLError
      else
        (case urlparse is_ipv6 (with_scheme base_url) of
           Inl e \<Rightarrow> Inl e
         | Inr parsed \<Rightarrow>
             if netloc parsed = [] then Inl InvalidBaseURLError
             else
               (let rebuilt = parsed\<lparr>query :=
                      new_query parsed pairs force_lower space_mode merge_existing override_existing\<rparr>
                in Inr (urlunparse rebuilt))))"

subsection \<open>Auxiliary notions for the proofs\<close>

text \<open>What \<^verbatim>\<open>quote_plus\<close> makes of one character.\<close>

definition quote_plus_char :: "char \<Rightarrow> string" where
  "quote_plus_char c = (if c = CHR '' '' then ''+'' else quoter [] c)"

text \<open>The part of a path after its last slash.\<close>

definition last_segment :: "string \<Rightarrow> string" where
  "last_segment url = rev (takeWhile (\<lambda>c. c \<noteq> CHR ''/'') (rev url))"

text \<open>The authority passes the two bracket checks of \<^verbatim>\<open>urlsplit\<close>.\<close>

definition brackets_ok :: "(string \<Rightarrow> bool) \<Rightarrow> string \<Rightarrow> bool" where
  "brackets_ok is_ipv6 nl =
     (\<not> ((CHR ''['' \<in> set nl \<and> CHR '']'' \<notin> set nl) \<or>
         (CHR '']'' \<in> set nl \<and> CHR ''['' \<notin> set nl)) \<and>
      \<not> (CHR ''['' \<in> set nl \<and> CHR '']'' \<in> set nl \<and>
         \<not> check_bracketed_host is_ipv6 (bracketed_host nl)))"

text \<open>
  The shape of a parse result that \<^verbatim>\<open>urlparse\<close> returns with an authority: the six
  components are such that joining and parsing again gives them back.
\<close>

definition canonical :: "(string \<Rightarrow> bool) \<Rightarrow> parse_result \<Rightarrow> bool" where
  "canonical is_ipv6 r =
     ((scheme r = [] \<or>
        (isascii_alpha (hd (scheme r)) \<and> list_all (\<lambda>c. c \<in> set scheme_chars) (scheme r) \<and>
         str_lower (scheme r) = scheme r)) \<and>
      netloc r \<noteq> [] \<and> list_all (\<lambda>c. c \<notin> set ''/?#'') (netloc r) \<and>
      brackets_ok is_ipv6 (netloc r) \<and>
      (path r = [] \<or> hd (path r) = CHR ''/'') \<and>
      list_all (\<lambda>c. c \<notin> set ''?#'') (path r) \<and>
      list_all (\<lambda>c. c \<notin> set ''/?#'') (params r) \<and>
      (if scheme r \<in> set uses_params
       then CHR '';'' \<notin> set (last_segment (path r)) \<and> (path r = [] \<longrightarrow> params r = [])
       else params r = []) \<and>
      CHR ''#'' \<notin> set (query r) \<and>
      list_all (\<lambda>c. c \<notin> set unsafe_url_bytes_to_remove)
        (netloc r @ path r @ params r @ query r @ fragment r))"

subsection \<open>Notions used to state the claims\<close>

text \<open>
  The parameters of the query string of a URL, in order, as \<^verbatim>\<open>urlparse\<close> and \<^verbatim>\<open>parse_qsl\<close>
  read them: of the base URL after scheme inference, and of a URL that was built.
\<close>

definition base_params :: "(string \<Rightarrow> bool) \<Rightarrow> string \<Rightarrow> (string \<times> string) list" where
  "base_params is_ipv6 base_url =
     (case urlparse is_ipv6 (with_scheme base_url) of
        Inl e \<Rightarrow> []
      | Inr parsed \<Rightarrow> parse_qsl (query parsed) True)"

definition output_params :: "(string \<Rightarrow> bool) \<Rightarrow> string \<Rightarrow> (string \<times> string) list" where
  "output_params is_ipv6 url =
     (case urlparse is_ipv6 url of
        Inl e \<Rightarrow> []
      | Inr parsed \<Rightarrow> parse_qsl (query parsed) True)"

text \<open>
  The candidate pairs of step 5 of the specification: the supplied pairs with a
  non-blank value, normalized, without those whose normalized key or value is empty.
\<close>

fun candidates :: "bool \<Rightarrow> string \<Rightarrow> (string \<times> string option) list \<Rightarrow> (string \<times> string) list" where
  "candidates force_lower space_mode [] = []"
| "candidates force_lower space_mode ((k, v) # rest) =
     (case (v, normalize_pair (Some k) v force_lower space_mode) of
        (Some s, Some nk, Some nv) \<Rightarrow>
          if s \<noteq> [] \<and> nk \<noteq> [] \<and> nv \<noteq> []
          then (nk, nv) # candidates force_lower space_mode rest
          else candidates force_lower space_mode rest
      | _ \<Rightarrow> candidates force_lower space_mode rest)"

text \<open>Each element once, at the place of its first occurrence.\<close>

function first_occurrences :: "'a list \<Rightarrow> 'a list" where
  "first_occurrences [] = []"
| "first_occurrences (x # xs) = x # first_occurrences (filter (\<lambda>y. y \<noteq> x) xs)"
  by pat_completeness auto

termination
  by (relation "measure length") (auto simp: less_Suc_eq_le)

text \<open>
  The inputs the embedding speaks about: ASCII strings, whose percent escapes in the
  base URL's query stand for ASCII characters.
\<close>

definition ascii_input ::
  "(string \<Rightarrow> bool) \<Rightarrow> string \<Rightarrow> (string \<times> string option) list \<Rightarrow> bool" where
  "ascii_input is_ipv6 base_url pairs =
     (ascii base_url \<and>
      list_all (\<lambda>(k, v). ascii k \<and> (case v of None \<Rightarrow> True | Some s \<Rightarrow> ascii s)) pairs \<and>
      list_all (\<lambda>(k, v). ascii k \<and> ascii v) (base_params is_ipv6 base_url))"

section \<open>Evaluation\<close>

text \<open>The defining equations, grouped for evaluating the functions on given strings.\<close>

lemmas str_defs = str_find_from_def str_rfind_def str_partition_def str_replace_def
  str_remove_def str_lstrip_def isspace_def str_strip_def ascii_lowercase_def
  ascii_uppercase_def digits_def lower_char_def str_lower_def str_rstrip_def

lemmas quote_defs = always_safe_def quoter_def quote_from_bytes_def quote_def quote_plus_def
  urlencode_def hexdig_def hex_value_def hextobyte_def unquote_item_def unquote_to_bytes_def
  unquote_def unquote_plus_def parse_qsl_def char_of_def bit_Suc_0_iff

lemmas url_defs = uses_netloc_def uses_params_def scheme_chars_def c0_control_or_space_def
  unsafe_url_bytes_to_remove_def isascii_alpha_def splitparams_def splitnetloc_def
  ipvfuture_match_def check_bracketed_host_def split_scheme_def split_fragment_query_def
  bracketed_host_def urlsplit_def urlparse_def urlunsplit_def urlunparse_def

lemmas core_defs = transform_def normalize_pair_def existing_params_def final_params_def
  new_query_def with_scheme_def build_utm_url_def

section \<open>The errors of \<^verbatim>\<open>build_utm_url\<close>\<close>

lemma urlsplit_error: "urlsplit ip u = Inl e \<Longrightarrow> e = UrlparseValueError"
  by (auto simp: urlsplit_def Let_def split: prod.splits if_splits)

lemma urlparse_error: "urlparse ip u = Inl e \<Longrightarrow> e = UrlparseValueError"
  by (auto simp: urlparse_def Let_def split: prod.splits if_splits sum.splits
           dest: urlsplit_error)

section \<open>Facts about the string primitives\<close>

lemma str_find_None: "str_find c s = None \<longleftrightarrow> c \<notin> set s"
  by (induction s) (auto split: option.splits)

lemma str_find_append: "c \<notin> set a \<Longrightarrow> str_find c (a @ c # b) = Some (length a)"
  by (induction a) auto

lemma str_find_SomeD: "str_find c s = Some i \<Longrightarrow> \<exists>a b. s = a @ c # b \<and> c \<notin> set a \<and> i = length a"
proof (induction s arbitrary: i)
  case Nil then show ?case by simp
next
  case (Cons x xs)
  show ?case
  proof (cases "x = c")
    case True
    with Cons.prems have "x # xs = [] @ c # xs \<and> c \<notin> set [] \<and> i = length ([]::string)" by simp
    then show ?thesis by blast
  next
    case False
    with Cons.prems obtain j where j: "str_find c xs = Some j" "i = Suc j"
      by (auto split: option.splits)
    from Cons.IH[OF j(1)] obtain a b where "xs = a @ c # b" "c \<notin> set a" "j = length a" by blast
    with False j have "x # xs = (x # a) @ c # b \<and> c \<notin> set (x # a) \<and> i = length (x # a)" by simp
    then show ?thesis by blast
  qed
qed

lemma str_partition_found: "c \<notin> set a \<Longrightarrow> str_partition c (a @ c # b) = (a, True, b)"
  by (simp add: str_partition_def str_find_append)

lemma str_partition_absent: "c \<notin> set s \<Longrightarrow> str_partition c s = (s, False, [])"
  by (simp add: str_partition_def str_find_None[THEN iffD2])

lemma str_partition_cases:
  "(c \<notin> set s \<and> str_partition c s = (s, False, [])) \<or>
   (\<exists>a b. s = a @ c # b \<and> c \<notin> set a \<and> str_partition c s = (a, True, b))"
proof (cases "c \<in> set s")
  case False then show ?thesis by (simp add: str_partition_absent)
next
  case True
  then obtain i where "str_find c s = Some i" using str_find_None[of c s] by auto
  from str_find_SomeD[OF this] obtain a b where "s = a @ c # b" "c \<notin> set a" by blast
  then show ?thesis using str_partition_found by blast
qed

lemma str_split_nonempty: "str_split c s \<noteq> []"
  by (induction s) (auto split: list.splits)

lemma str_split_absent: "c \<notin> set s \<Longrightarrow> str_split c s = [s]"
  by (induction s) (auto split: list.splits)

lemma str_split_append: "c \<notin> set a \<Longrightarrow> str_split c (a @ c # b) = a # str_split c b"
  by (induction a) (auto split: list.splits)

lemma str_contains_prefix: "str_contains sub (sub @ b)"
proof (cases "sub @ b")
  case Nil then show ?thesis by simp
next
  case (Cons x xs)
  have "take (length sub) (sub @ b) = sub" by simp
  then show ?thesis unfolding Cons by simp
qed

lemma str_contains_append: "str_contains sub (a @ sub @ b)"
  by (induction a) (auto simp: str_contains_prefix)

section \<open>Quoting and unquoting\<close>

lemma str_rstrip_Nil_iff: "str_rstrip P s = [] \<longleftrightarrow> list_all P s"
  by (auto simp: str_rstrip_def list_all_iff)

lemma concat_quoter_safe:
  "list_all (\<lambda>c. c \<in> set (always_safe @ safe)) s \<Longrightarrow> concat (map (quoter safe) s) = s"
  by (induction s) (auto simp: quoter_def)

lemma quote_concat: "quote s safe = concat (map (quoter safe) s)"
  by (simp add: quote_def quote_from_bytes_def str_rstrip_Nil_iff concat_quoter_safe)

lemma hex_upper_safe: "d < 16 \<Longrightarrow> ''0123456789ABCDEF'' ! d \<in> set always_safe"
proof -
  assume "d < 16"
  then have "d = 0 \<or> d = 1 \<or> d = 2 \<or> d = 3 \<or> d = 4 \<or> d = 5 \<or> d = 6 \<or> d = 7 \<or>
             d = 8 \<or> d = 9 \<or> d = 10 \<or> d = 11 \<or> d = 12 \<or> d = 13 \<or> d = 14 \<or> d = 15"
    by arith
  then show ?thesis
    by (auto simp: always_safe_def ascii_uppercase_def ascii_lowercase_def digits_def)
qed

lemma hex_value_upper: "d < 16 \<Longrightarrow> hex_value (''0123456789ABCDEF'' ! d) = Some d"
proof -
  assume "d < 16"
  then have "d = 0 \<or> d = 1 \<or> d = 2 \<or> d = 3 \<or> d = 4 \<or> d = 5 \<or> d = 6 \<or> d = 7 \<or>
             d = 8 \<or> d = 9 \<or> d = 10 \<or> d = 11 \<or> d = 12 \<or> d = 13 \<or> d = 14 \<or> d = 15"
    by arith
  then show ?thesis
    by (auto simp: hex_value_def hexdig_def)
qed

lemma of_char_nat_less: "(of_char c :: nat) < 256"
  by (cases c) (simp add: of_char_def)

lemma hextobyte_quoter:
  "hextobyte [''0123456789ABCDEF'' ! ((of_char c :: nat) div 16),
              ''0123456789ABCDEF'' ! ((of_char c :: nat) mod 16)] = Some c"
proof -
  let ?n = "of_char c :: nat"
  have "?n div 16 < 16" using of_char_nat_less[of c] by (simp add: less_mult_imp_div_less)
  moreover have "?n mod 16 < 16" by simp
  moreover have "char_of (16 * (?n div 16) + ?n mod 16) = c" by simp
  ultimately show ?thesis by (simp add: hextobyte_def hex_value_upper)
qed

lemma percent_not_safe: "CHR ''%'' \<notin> set always_safe"
  by (simp add: always_safe_def ascii_uppercase_def ascii_lowercase_def digits_def)

lemma set_quoter: "x \<in> set (quoter safe c) \<Longrightarrow> x \<in> set (always_safe @ safe) \<or> x = CHR ''%''"
  using of_char_nat_less[of c]
  by (auto simp: quoter_def less_mult_imp_div_less hex_upper_safe split: if_splits)

subsection \<open>\<^verbatim>\<open>quote_plus\<close>, character by character\<close>

lemma str_replace_concat: "str_replace a b (concat xs) = concat (map (str_replace a b) xs)"
  by (induction xs) (auto simp: str_replace_def)

lemma str_replace_id: "a \<notin> set s \<Longrightarrow> str_replace a b s = s"
  by (induction s) (auto simp: str_replace_def)

lemma space_not_safe: "CHR '' '' \<notin> set always_safe"
  by (simp add: always_safe_def ascii_uppercase_def ascii_lowercase_def digits_def)

lemma plus_not_safe: "CHR ''+'' \<notin> set always_safe"
  by (simp add: always_safe_def ascii_uppercase_def ascii_lowercase_def digits_def)

lemma replace_quoter_space:
  "str_replace (CHR '' '') (CHR ''+'') (quoter '' '' c) = quote_plus_char c"
proof (cases "c = CHR '' ''")
  case True then show ?thesis by (simp add: quoter_def str_replace_def quote_plus_char_def)
next
  case False
  have "quoter '' '' c = quoter [] c" using False by (simp add: quoter_def)
  moreover have "CHR '' '' \<notin> set (quoter [] c)"
    using set_quoter[of "CHR '' ''" "[]" c] space_not_safe by auto
  ultimately show ?thesis using False by (simp add: str_replace_id quote_plus_char_def)
qed

lemma quote_plus_concat: "quote_plus s = concat (map quote_plus_char s)"
proof (cases "CHR '' '' \<in> set s")
  case False
  then have "concat (map quote_plus_char s) = concat (map (quoter []) s)"
    by (induction s) (auto simp: quote_plus_char_def)
  with False show ?thesis by (simp add: quote_plus_def quote_concat)
next
  case True
  have "str_replace (CHR '' '') (CHR ''+'') (concat (map (quoter '' '') s))
          = concat (map quote_plus_char s)"
    by (simp add: str_replace_concat comp_def replace_quoter_space)
  then show ?thesis using True by (simp add: quote_plus_def quote_concat)
qed

lemma set_quote_plus_char:
  "x \<in> set (quote_plus_char c) \<Longrightarrow> x \<in> set always_safe \<or> x = CHR ''%'' \<or> x = CHR ''+''"
  using set_quoter[of x "[]" c] by (auto simp: quote_plus_char_def split: if_splits)

lemma set_quote_plus:
  "x \<in> set (quote_plus s) \<Longrightarrow> x \<in> set always_safe \<or> x = CHR ''%'' \<or> x = CHR ''+''"
  unfolding quote_plus_concat using set_quote_plus_char by auto

subsection \<open>\<^verbatim>\<open>unquote\<close>, step by step\<close>

lemma str_split_single: "str_split c s = [b] \<Longrightarrow> b = s"
  by (induction s arbitrary: b) (auto simp: str_split_nonempty split: if_splits list.splits)

lemma unquote_alt:
  "unquote s = (case str_split (CHR ''%'') s of
                  [] \<Rightarrow> s | b # items \<Rightarrow> b @ concat (map unquote_item items))"
proof (cases "CHR ''%'' \<in> set s")
  case False
  then show ?thesis by (simp add: unquote_def str_split_absent)
next
  case True
  then have "s \<noteq> []" by auto
  with True show ?thesis
    by (auto simp: unquote_def unquote_to_bytes_def split: list.splits dest: str_split_single)
qed

lemma unquote_Nil: "unquote [] = []"
  by (simp add: unquote_def)

lemma unquote_plain: "c \<noteq> CHR ''%'' \<Longrightarrow> unquote (c # t) = c # unquote t"
  by (simp add: unquote_alt str_split_nonempty split: list.splits)

lemma unquote_escape:
  assumes "hextobyte [h1, h2] = Some b"
  shows "unquote (CHR ''%'' # h1 # h2 # t) = b # unquote t"
proof -
  from assms have "h1 \<noteq> CHR ''%''" "h2 \<noteq> CHR ''%''"
    by (auto simp: hextobyte_def hex_value_def hexdig_def split: option.splits)
  then show ?thesis using assms
    by (simp add: unquote_alt unquote_item_def str_split_nonempty split: list.splits)
qed

lemma unquote_plus_char:
  "unquote (str_replace (CHR ''+'') (CHR '' '') (quote_plus_char c) @ t) = c # unquote t"
proof (cases "c = CHR '' ''")
  case True
  then show ?thesis by (simp add: quote_plus_char_def str_replace_def unquote_plain)
next
  case False
  note sp = False
  show ?thesis
  proof (cases "c \<in> set always_safe")
    case True
    then have "c \<noteq> CHR ''%''" "c \<noteq> CHR ''+''" using percent_not_safe plus_not_safe by auto
    with True sp show ?thesis
      by (simp add: quote_plus_char_def quoter_def str_replace_def unquote_plain)
  next
    case False
    have "CHR ''+'' \<notin> set (quoter [] c)"
      using set_quoter[of "CHR ''+''" "[]" c] plus_not_safe by auto
    then have "str_replace (CHR ''+'') (CHR '' '') (quoter [] c) = quoter [] c"
      by (rule str_replace_id)
    with False sp show ?thesis
      by (simp add: quote_plus_char_def quoter_def unquote_escape[OF hextobyte_quoter])
  qed
qed

lemma unquote_plus_quote_plus: "unquote_plus (quote_plus s) = s"
proof -
  have "unquote (str_replace (CHR ''+'') (CHR '' '') (concat (map quote_plus_char s))) = s"
  proof (induction s)
    case Nil show ?case by (simp add: str_replace_def unquote_Nil)
  next
    case (Cons c s)
    have "str_replace (CHR ''+'') (CHR '' '') (concat (map quote_plus_char (c # s)))
           = str_replace (CHR ''+'') (CHR '' '') (quote_plus_char c)
             @ str_replace (CHR ''+'') (CHR '' '') (concat (map quote_plus_char s))"
      by (simp add: str_replace_def)
    then show ?case using Cons.IH by (simp add: unquote_plus_char)
  qed
  then show ?thesis by (simp add: unquote_plus_def quote_plus_concat)
qed

section \<open>Encoding and parsing a query; dictionaries\<close>

lemma amp_not_in_quote_plus: "CHR ''&'' \<notin> set (quote_plus s)"
  using set_quote_plus[of "CHR ''&''" s]
  by (auto simp: always_safe_def ascii_uppercase_def ascii_lowercase_def digits_def)

lemma eq_not_in_quote_plus: "CHR ''='' \<notin> set (quote_plus s)"
  using set_quote_plus[of "CHR ''=''" s]
  by (auto simp: always_safe_def ascii_uppercase_def ascii_lowercase_def digits_def)

lemma str_split_join:
  "xs \<noteq> [] \<Longrightarrow> \<forall>x\<in>set xs. c \<notin> set x \<Longrightarrow> str_split c (str_join [c] xs) = xs"
proof (induction xs)
  case Nil then show ?case by simp
next
  case (Cons x xs)
  show ?case
  proof (cases xs)
    case Nil
    with Cons.prems show ?thesis by (simp add: str_split_absent)
  next
    case (Cons y ys)
    with Cons.IH Cons.prems have "str_split c (str_join [c] (y # ys)) = y # ys" by simp
    with Cons Cons.prems show ?thesis by (simp add: str_split_append)
  qed
qed

lemma parse_fields_encoded:
  "parse_fields True (map (\<lambda>(k, v). quote_plus k @ CHR ''='' # quote_plus v) d) = d"
proof (induction d)
  case Nil show ?case by simp
next
  case (Cons kv d)
  obtain k v where kv: "kv = (k, v)" by (cases kv)
  have "str_partition (CHR ''='') (quote_plus k @ CHR ''='' # quote_plus v) = (quote_plus k, True, quote_plus v)"
    by (rule str_partition_found) (rule eq_not_in_quote_plus)
  then show ?case using Cons.IH by (simp add: kv unquote_plus_quote_plus)
qed

lemma urlencode_Nil_iff: "urlencode d = [] \<longleftrightarrow> d = []"
proof (cases d)
  case Nil then show ?thesis by (simp add: urlencode_def)
next
  case (Cons kv d')
  then show ?thesis by (cases d'; cases kv) (auto simp: urlencode_def)
qed

lemma parse_qsl_urlencode: "parse_qsl (urlencode d) True = d"
proof (cases "d = []")
  case True then show ?thesis by (simp add: parse_qsl_def urlencode_def)
next
  case False
  let ?xs = "map (\<lambda>(k, v). quote_plus k @ ''='' @ quote_plus v) d"
  have "\<forall>x\<in>set ?xs. CHR ''&'' \<notin> set x" by (auto simp: amp_not_in_quote_plus)
  with False have "str_split (CHR ''&'') (str_join ''&'' ?xs) = ?xs"
    by (intro str_split_join) auto
  with False show ?thesis
    using urlencode_Nil_iff[of d] by (simp add: parse_qsl_def urlencode_def parse_fields_encoded)
qed

subsection \<open>Dictionaries\<close>

lemma fold_update_distinct:
  "distinct (map fst d) \<Longrightarrow> set (map fst d) \<inter> set (map fst acc) = {} \<Longrightarrow>
   fold (\<lambda>(k, v) e. AList.update k v e) d acc = acc @ d"
proof (induction d arbitrary: acc)
  case Nil show ?case by simp
next
  case (Cons kv d)
  obtain k v where kv: "kv = (k, v)" by (cases kv)
  have upd: "AList.update k v acc = acc @ [(k, v)]" using Cons.prems(2)
    by (induction acc) (auto simp: kv)
  have "fold (\<lambda>(k, v) e. AList.update k v e) d (acc @ [(k, v)]) = (acc @ [(k, v)]) @ d"
    using Cons.prems by (intro Cons.IH) (auto simp: kv)
  then show ?case by (simp add: kv upd)
qed

lemma distinct_fold_update:
  "distinct (map fst acc) \<Longrightarrow> distinct (map fst (fold (\<lambda>(k, v) e. AList.update k v e) d acc))"
  by (induction d arbitrary: acc) (auto simp: distinct_update)

lemma distinct_existing_params: "distinct (map fst (existing_params me p))"
  by (simp add: existing_params_def distinct_fold_update)

lemma distinct_final_params: "distinct (map fst (final_params p pairs fl sm me oe))"
  by (simp add: final_params_def Let_def distinct_fold_update distinct_existing_params)

lemma existing_params_reparse:
  assumes "distinct (map fst d)"
  shows "existing_params True (p\<lparr>query := urlencode d\<rparr>) = d"
proof (cases "d = []")
  case True then show ?thesis by (simp add: existing_params_def urlencode_Nil_iff)
next
  case False
  then show ?thesis using fold_update_distinct[OF assms, of "[]"]
    by (simp add: existing_params_def urlencode_Nil_iff parse_qsl_urlencode)
qed

section \<open>Splitting off the authority\<close>

lemma str_find_eq:
  "str_find c s = (if c \<in> set s then Some (length (takeWhile (\<lambda>x. x \<noteq> c) s)) else None)"
  by (induction s) auto

lemma length_takeWhile_conj:
  "length (takeWhile (\<lambda>x. P x \<and> Q x) s) = min (length (takeWhile P s)) (length (takeWhile Q s))"
  by (induction s) auto

lemma takeWhile_absent: "c \<notin> set s \<Longrightarrow> takeWhile (\<lambda>x. x \<noteq> c) s = s"
  by (induction s) auto

lemma splitnetloc_eq:
  assumes "start \<le> length url"
  shows "splitnetloc url start =
           (takeWhile (\<lambda>c. c \<notin> set ''/?#'') (drop start url),
            dropWhile (\<lambda>c. c \<notin> set ''/?#'') (drop start url))"
proof -
  let ?s = "drop start url"
  let ?n = "\<lambda>c. length (takeWhile (\<lambda>x. x \<noteq> c) ?s)"
  have len: "length url = start + length ?s" using assms by simp
  have step: "(case str_find_from c url start of None \<Rightarrow> start + d | Some w \<Rightarrow> min (start + d) w)
                = start + min d (?n c)" if "d \<le> length ?s" for c d
    using that by (auto simp: str_find_from_def str_find_eq takeWhile_absent min_def)
  have "(\<lambda>c. c \<notin> set ''/?#'') = (\<lambda>c. c \<noteq> CHR ''/'' \<and> c \<noteq> CHR ''?'' \<and> c \<noteq> CHR ''#'')"
    by auto
  then have tw: "length (takeWhile (\<lambda>c. c \<notin> set ''/?#'') ?s)
                = min (?n (CHR ''/'')) (min (?n (CHR ''?'')) (?n (CHR ''#'')))"
    by (simp only: length_takeWhile_conj)
  define f where "f = (\<lambda>c delim. case str_find_from c url start of None \<Rightarrow> delim
                          | Some wdelim \<Rightarrow> min delim wdelim)"
  have f: "f c (start + d) = start + min d (?n c)" if "d \<le> length ?s" for c d
    using step[OF that] by (simp add: f_def)
  have "f (CHR ''/'') (start + length ?s) = start + min (length ?s) (?n (CHR ''/''))"
    by (rule f) simp
  also have "min (length ?s) (?n (CHR ''/'')) = ?n (CHR ''/'')"
    by (rule min_absorb2) (rule length_takeWhile_le)
  finally have f0: "f (CHR ''/'') (start + length ?s) = start + ?n (CHR ''/'')" .
  have f1: "f (CHR ''/'') (length url) = start + ?n (CHR ''/'')"
    by (subst len) (rule f0)
  have f2: "f (CHR ''?'') (start + ?n (CHR ''/'')) = start + min (?n (CHR ''/'')) (?n (CHR ''?''))"
    by (rule f) (rule length_takeWhile_le)
  have f3: "f (CHR ''#'') (start + min (?n (CHR ''/'')) (?n (CHR ''?'')))
             = start + min (min (?n (CHR ''/'')) (?n (CHR ''?''))) (?n (CHR ''#''))"
    by (rule f) (rule min.coboundedI1, rule length_takeWhile_le)
  have "fold f ''/?#'' (length url) = start + length (takeWhile (\<lambda>c. c \<notin> set ''/?#'') ?s)"
    unfolding tw by (simp add: f1 f2 f3 min.assoc)
  then have "fold (\<lambda>c delim. case str_find_from c url start of None \<Rightarrow> delim
                          | Some wdelim \<Rightarrow> min delim wdelim) ''/?#'' (length url)
        = start + length (takeWhile (\<lambda>c. c \<notin> set ''/?#'') ?s)"
    by (simp add: f_def)
  then have sp: "splitnetloc url start =
      (drop start (take (start + length (takeWhile (\<lambda>c. c \<notin> set ''/?#'') ?s)) url),
       drop (start + length (takeWhile (\<lambda>c. c \<notin> set ''/?#'') ?s)) url)"
    unfolding splitnetloc_def Let_def by (simp only:)
  have a: "drop start (take (start + n) url) = take n ?s" for n
    by (simp add: drop_take)
  have b: "drop (start + n) url = drop n ?s" for n
    by (simp add: add.commute)
  show ?thesis
    unfolding sp a b by (simp only: takeWhile_eq_take[symmetric] dropWhile_eq_drop[symmetric])
qed

section \<open>Scheme, fragment and query\<close>

lemma scheme_char_facts:
  assumes "c \<in> set scheme_chars"
  shows "lower_char c \<in> set scheme_chars" "lower_char (lower_char c) = lower_char c"
        "c \<noteq> CHR '':''" "c \<notin> set unsafe_url_bytes_to_remove" "\<not> c0_control_or_space c"
        "isascii_alpha c \<Longrightarrow> isascii_alpha (lower_char c)"
  using assms
  by (auto simp: scheme_chars_def lower_char_def ascii_lowercase_def ascii_uppercase_def digits_def
                 unsafe_url_bytes_to_remove_def c0_control_or_space_def isascii_alpha_def)

lemma str_lower_scheme:
  assumes "list_all (\<lambda>c. c \<in> set scheme_chars) x"
  shows "list_all (\<lambda>c. c \<in> set scheme_chars) (str_lower x)" "str_lower (str_lower x) = str_lower x"
  using assms by (induction x) (auto simp: str_lower_def scheme_char_facts)

lemma split_scheme_cases:
  assumes "split_scheme url = (sch, rest)"
  shows "(sch = [] \<and> rest = url) \<or>
         (\<exists>x. url = x @ CHR '':'' # rest \<and> x \<noteq> [] \<and> isascii_alpha (hd x) \<and>
              list_all (\<lambda>c. c \<in> set scheme_chars) x \<and> sch = str_lower x)"
proof (cases "str_find (CHR '':'') url")
  case None
  with assms show ?thesis by (simp add: split_scheme_def)
next
  case (Some i)
  from str_find_SomeD[OF Some] obtain a b where ab: "url = a @ CHR '':'' # b" "i = length a" by blast
  show ?thesis
  proof (cases "0 < i \<and> isascii_alpha (url ! 0) \<and> list_all (\<lambda>c. c \<in> set scheme_chars) (take i url)")
    case False
    with assms Some show ?thesis by (auto simp: split_scheme_def)
  next
    case True
    with ab have "a \<noteq> []" by auto
    then have "url ! 0 = hd a" using ab by (cases a) auto
    with True assms Some ab \<open>a \<noteq> []\<close> show ?thesis by (auto simp: split_scheme_def)
  qed
qed

lemma split_scheme_joined:
  assumes "sch \<noteq> []" "isascii_alpha (hd sch)" "list_all (\<lambda>c. c \<in> set scheme_chars) sch"
          "str_lower sch = sch"
  shows "split_scheme (sch @ CHR '':'' # rest) = (sch, rest)"
proof -
  have "CHR '':'' \<notin> set sch" using assms(3) scheme_char_facts(3) by (auto simp: list_all_iff)
  then have "str_find (CHR '':'') (sch @ CHR '':'' # rest) = Some (length sch)"
    by (rule str_find_append)
  moreover have "(sch @ CHR '':'' # rest) ! 0 = hd sch" using assms(1) by (cases sch) auto
  ultimately show ?thesis using assms by (simp add: split_scheme_def)
qed

lemma split_scheme_slash: "split_scheme (CHR ''/'' # x) = ([], CHR ''/'' # x)"
  by (simp add: split_scheme_def isascii_alpha_def ascii_lowercase_def ascii_uppercase_def
           split: option.splits)

subsection \<open>Fragment and query\<close>

lemma split_fragment_query_cases:
  assumes "split_fragment_query sch nl t = (sch', nl', p, q, f)"
  shows "sch' = sch \<and> nl' = nl \<and> set p \<subseteq> set t \<and> set q \<subseteq> set t \<and> set f \<subseteq> set t \<and>
         CHR ''?'' \<notin> set p \<and> CHR ''#'' \<notin> set p \<and> CHR ''#'' \<notin> set q \<and>
         (\<exists>r. t = p @ r \<and> (p \<noteq> [] \<longrightarrow> r = [] \<or> hd r \<in> set ''?#''))"
proof -
  obtain u f0 where uf: "(if CHR ''#'' \<in> set t
                         then (case str_partition (CHR ''#'') t of (a, _, b) \<Rightarrow> (a, b))
                         else (t, [])) = (u, f0)" by fastforce
  have u: "CHR ''#'' \<notin> set u \<and> set u \<subseteq> set t \<and> set f0 \<subseteq> set t \<and>
           (\<exists>r. t = u @ r \<and> (r = [] \<or> hd r = CHR ''#''))"
    using uf str_partition_cases[of "CHR ''#''" t] by (auto split: if_splits)
  obtain p0 q0 where pq: "(if CHR ''?'' \<in> set u
                         then (case str_partition (CHR ''?'') u of (a, _, b) \<Rightarrow> (a, b))
                         else (u, [])) = (p0, q0)" by fastforce
  have p: "CHR ''?'' \<notin> set p0 \<and> set p0 \<subseteq> set u \<and> set q0 \<subseteq> set u \<and>
           (\<exists>r. u = p0 @ r \<and> (r = [] \<or> hd r = CHR ''?''))"
    using pq str_partition_cases[of "CHR ''?''" u] by (auto split: if_splits)
  from assms uf pq have eq: "sch' = sch" "nl' = nl" "p = p0" "q = q0" "f = f0"
    by (simp_all add: split_fragment_query_def)
  from u p obtain r1 r2 where r: "t = u @ r1" "r1 = [] \<or> hd r1 = CHR ''#''"
      "u = p0 @ r2" "r2 = [] \<or> hd r2 = CHR ''?''" by blast
  then have "t = p0 @ (r2 @ r1) \<and> (r2 @ r1 = [] \<or> hd (r2 @ r1) \<in> set ''?#'')"
    by (cases r2) auto
  with u p eq show ?thesis by blast
qed

lemma split_fragment_query_joined:
  assumes "CHR ''?'' \<notin> set p" "CHR ''#'' \<notin> set p" "CHR ''#'' \<notin> set q"
  shows "split_fragment_query sch nl
           (p @ (if q \<noteq> [] then ''?'' @ q else []) @ (if f \<noteq> [] then ''#'' @ f else []))
         = (sch, nl, p, q, f)"
proof -
  let ?pq = "p @ (if q \<noteq> [] then ''?'' @ q else [])"
  have nh: "CHR ''#'' \<notin> set ?pq" using assms by auto
  have 1: "str_partition (CHR ''#'') (?pq @ CHR ''#'' # f) = (?pq, True, f)"
    by (rule str_partition_found[OF nh])
  have 2: "str_partition (CHR ''?'') (p @ CHR ''?'' # q) = (p, True, q)"
    by (rule str_partition_found[OF assms(1)])
  show ?thesis
  proof (cases "f = []")
    case True
    with assms 2 show ?thesis by (auto simp: split_fragment_query_def)
  next
    case False
    with assms 1 2 show ?thesis by (auto simp: split_fragment_query_def)
  qed
qed

section \<open>Path parameters\<close>

lemma last_segment_append: "CHR ''/'' \<notin> set seg \<Longrightarrow> last_segment (pre @ CHR ''/'' # seg) = seg"
proof -
  assume "CHR ''/'' \<notin> set seg"
  then have "takeWhile (\<lambda>c. c \<noteq> CHR ''/'') (rev seg @ CHR ''/'' # rev pre) = rev seg"
    by (subst takeWhile_append2) auto
  then show ?thesis by (simp add: last_segment_def)
qed

lemma last_segment_absent: "CHR ''/'' \<notin> set s \<Longrightarrow> last_segment s = s"
  by (simp add: last_segment_def takeWhile_absent)

lemma str_rfind_append: "c \<notin> set seg \<Longrightarrow> str_rfind c (pre @ c # seg) = Some (length pre)"
  using str_find_append[of c "rev seg" "rev pre"] by (simp add: str_rfind_def)

lemma str_rfind_None: "str_rfind c s = None \<longleftrightarrow> c \<notin> set s"
  using str_find_None[of c "rev s"] by (auto simp: str_rfind_def split: option.splits)

lemma splitparams_slash:
  assumes "CHR ''/'' \<notin> set seg"
  shows "splitparams (pre @ CHR ''/'' # seg) =
           (if CHR '';'' \<in> set seg
            then (pre @ CHR ''/'' # takeWhile (\<lambda>c. c \<noteq> CHR '';'') seg,
                  tl (dropWhile (\<lambda>c. c \<noteq> CHR '';'') seg))
            else (pre @ CHR ''/'' # seg, []))"
proof -
  let ?url = "pre @ CHR ''/'' # seg"
  have r: "str_rfind (CHR ''/'') ?url = Some (length pre)" by (rule str_rfind_append[OF assms])
  show ?thesis
  proof (cases "CHR '';'' \<in> set seg")
    case False
    then show ?thesis by (simp add: splitparams_def r str_find_from_def str_find_eq)
  next
    case True
    let ?a = "takeWhile (\<lambda>c. c \<noteq> CHR '';'') seg"
    have d: "drop (length ?a) seg = dropWhile (\<lambda>c. c \<noteq> CHR '';'') seg"
      by (rule dropWhile_eq_drop[symmetric])
    have t: "take (length ?a) seg = ?a" by (rule takeWhile_eq_take[symmetric])
    have f: "str_find_from (CHR '';'') ?url (length pre) = Some (length pre + Suc (length ?a))"
      using True by (simp add: str_find_from_def str_find_eq)
    have tk: "take (length pre + Suc (length ?a)) ?url = pre @ CHR ''/'' # ?a"
      by (simp add: t)
    have "drop (Suc (length pre + Suc (length ?a))) ?url = drop (Suc (length ?a)) seg"
      by simp
    also have "\<dots> = tl (drop (length ?a) seg)" by (simp add: drop_Suc tl_drop)
    finally have dr: "drop (Suc (length pre + Suc (length ?a))) ?url
                       = tl (dropWhile (\<lambda>c. c \<noteq> CHR '';'') seg)" by (simp only: d)
    have "splitparams ?url =
            (case str_find_from (CHR '';'') ?url (length pre) of
               None \<Rightarrow> (?url, [])
             | Some i \<Rightarrow> (take i ?url, drop (Suc i) ?url))"
      by (simp add: splitparams_def r)
    also have "\<dots> = (take (length pre + Suc (length ?a)) ?url,
                       drop (Suc (length pre + Suc (length ?a))) ?url)"
      by (simp only: f option.case)
    also have "\<dots> = (pre @ CHR ''/'' # ?a, tl (dropWhile (\<lambda>c. c \<noteq> CHR '';'') seg))"
      by (simp only: tk dr)
    finally show ?thesis using True by simp
  qed
qed

lemma split_last_slash:
  "CHR ''/'' \<in> set url \<Longrightarrow> \<exists>pre seg. url = pre @ CHR ''/'' # seg \<and> CHR ''/'' \<notin> set seg"
  by (rule split_list_last)

lemma splitparams_cases:
  assumes "splitparams url = (p, prm)" "CHR '';'' \<in> set url"
  shows "set p \<subseteq> set url \<and> set prm \<subseteq> set url \<and> CHR ''/'' \<notin> set prm \<and>
         CHR '';'' \<notin> set (last_segment p) \<and> (CHR ''/'' \<in> set url \<longrightarrow> p \<noteq> []) \<and>
         (\<exists>r. url = p @ r)"
proof (cases "CHR ''/'' \<in> set url")
  case True
  from split_last_slash[OF True] obtain pre seg where
    u: "url = pre @ CHR ''/'' # seg" "CHR ''/'' \<notin> set seg" by blast
  show ?thesis
  proof (cases "CHR '';'' \<in> set seg")
    case False
    with assms u splitparams_slash[OF u(2), of pre] show ?thesis
      by (auto simp: last_segment_append)
  next
    case sc: True
    let ?a = "takeWhile (\<lambda>c. c \<noteq> CHR '';'') seg"
    let ?b = "dropWhile (\<lambda>c. c \<noteq> CHR '';'') seg"
    have pe: "p = pre @ CHR ''/'' # ?a" "prm = tl ?b"
      using assms u sc splitparams_slash[OF u(2), of pre] by auto
    have a: "CHR ''/'' \<notin> set ?a" "CHR '';'' \<notin> set ?a"
      using u(2) by (auto dest: set_takeWhileD)
    have b: "set (tl ?b) \<subseteq> set seg"
      by (metis list.set_sel(2) set_dropWhileD subsetI tl_Nil)
    have "url = p @ ?b" using u pe by simp
    then have ex: "\<exists>r. url = p @ r" by blast
    have "set ?a \<subseteq> set seg" by (auto dest: set_takeWhileD)
    then have "set p \<subseteq> set url" using u pe by auto
    moreover have "set prm \<subseteq> set url" "CHR ''/'' \<notin> set prm" using b u pe by auto
    moreover have "CHR '';'' \<notin> set (last_segment p)" using a pe by (simp add: last_segment_append)
    moreover have "p \<noteq> []" using pe by simp
    ultimately show ?thesis using ex by blast
  qed
next
  case False
  from assms(2) obtain i where i: "str_find (CHR '';'') url = Some i"
    using str_find_None[of "CHR '';''" url] by auto
  from str_find_SomeD[OF i] obtain a b where ab: "url = a @ CHR '';'' # b" "CHR '';'' \<notin> set a" "i = length a"
    by blast
  moreover have "str_rfind (CHR ''/'') url = None" using False by (simp add: str_rfind_None)
  ultimately have "p = a" "prm = b" using assms i by (auto simp: splitparams_def)
  with ab False show ?thesis by (auto simp: last_segment_absent)
qed

lemma splitparams_joined:
  assumes "p \<noteq> []" "hd p = CHR ''/''" "CHR '';'' \<notin> set (last_segment p)" "CHR ''/'' \<notin> set prm"
  shows "splitparams (p @ CHR '';'' # prm) = (p, prm)"
proof -
  have "CHR ''/'' \<in> set p" using assms(1,2) by (cases p) auto
  from split_last_slash[OF this] obtain pre seg where
    u: "p = pre @ CHR ''/'' # seg" "CHR ''/'' \<notin> set seg" by blast
  with assms(3) have s: "CHR '';'' \<notin> set seg" by (simp add: last_segment_append)
  have "CHR ''/'' \<notin> set (seg @ CHR '';'' # prm)" using u assms(4) by simp
  moreover have "takeWhile (\<lambda>c. c \<noteq> CHR '';'') (seg @ CHR '';'' # prm) = seg"
    using s by (induction seg) auto
  moreover have "dropWhile (\<lambda>c. c \<noteq> CHR '';'') (seg @ CHR '';'' # prm) = CHR '';'' # prm"
    using s by (induction seg) auto
  ultimately show ?thesis using splitparams_slash[of "seg @ CHR '';'' # prm" pre]
    by (simp add: u)
qed

lemma splitparams_none:
  assumes "CHR '';'' \<in> set p" "CHR '';'' \<notin> set (last_segment p)"
  shows "splitparams p = (p, [])"
proof -
  have "CHR ''/'' \<in> set p"
  proof (rule ccontr)
    assume "CHR ''/'' \<notin> set p"
    then have "last_segment p = p" by (rule last_segment_absent)
    with assms show False by simp
  qed
  from split_last_slash[OF this] obtain pre seg where
    u: "p = pre @ CHR ''/'' # seg" "CHR ''/'' \<notin> set seg" by blast
  with assms(2) have s: "CHR '';'' \<notin> set seg" by (simp add: last_segment_append)
  from splitparams_slash[OF u(2), of pre] s show ?thesis by (simp add: u)
qed

section \<open>What \<^verbatim>\<open>urlsplit\<close> returns\<close>

lemma set_last_segment: "set (last_segment s) \<subseteq> set s"
  by (auto simp: last_segment_def dest: set_takeWhileD)

lemma fold_remove_unsafe:
  "fold str_remove unsafe_url_bytes_to_remove s = filter (\<lambda>c. c \<notin> set unsafe_url_bytes_to_remove) s"
  by (induction s) (auto simp: unsafe_url_bytes_to_remove_def str_remove_def)

lemma urlsplit_Inr:
  assumes "urlsplit ip u = Inr (sch, nl, p, q, f)" "nl \<noteq> []"
  shows "(sch = [] \<or> (isascii_alpha (hd sch) \<and> list_all (\<lambda>c. c \<in> set scheme_chars) sch \<and>
                      str_lower sch = sch)) \<and>
         list_all (\<lambda>c. c \<notin> set ''/?#'') nl \<and> brackets_ok ip nl \<and>
         (p = [] \<or> hd p = CHR ''/'') \<and> CHR ''?'' \<notin> set p \<and> CHR ''#'' \<notin> set p \<and>
         CHR ''#'' \<notin> set q \<and>
         list_all (\<lambda>c. c \<notin> set unsafe_url_bytes_to_remove) (nl @ p @ q @ f)"
proof -
  define url1 where "url1 = fold str_remove unsafe_url_bytes_to_remove (str_lstrip c0_control_or_space u)"
  obtain sch0 rest where ss: "split_scheme url1 = (sch0, rest)" by fastforce
  have safe1: "\<forall>c\<in>set url1. c \<notin> set unsafe_url_bytes_to_remove"
    by (simp add: url1_def fold_remove_unsafe)
  have rest_sub: "set rest \<subseteq> set url1"
    using split_scheme_cases[OF ss] by auto
  have two: "take 2 rest = ''//''"
  proof (rule ccontr)
    assume "take 2 rest \<noteq> ''//''"
    with assms ss show False
      by (simp add: urlsplit_def url1_def[symmetric] Let_def split_fragment_query_def split: prod.splits)
  qed
  then have len: "2 \<le> length rest" by (cases rest; cases "tl rest") auto
  let ?nd = "\<lambda>c. c \<notin> set ''/?#''"
  let ?nl = "takeWhile ?nd (drop 2 rest)"
  let ?t = "dropWhile ?nd (drop 2 rest)"
  have sn: "splitnetloc rest 2 = (?nl, ?t)" by (rule splitnetloc_eq[OF len])
  from assms(1) ss two sn have ok: "brackets_ok ip ?nl"
    and sfq: "split_fragment_query sch0 ?nl ?t = (sch, nl, p, q, f)"
    by (auto simp: urlsplit_def url1_def[symmetric] Let_def brackets_ok_def split: if_splits)
  from split_fragment_query_cases[OF sfq] obtain r where
    c: "sch = sch0" "nl = ?nl" "set p \<subseteq> set ?t" "set q \<subseteq> set ?t" "set f \<subseteq> set ?t"
       "CHR ''?'' \<notin> set p" "CHR ''#'' \<notin> set p" "CHR ''#'' \<notin> set q"
       "?t = p @ r" by blast
  have sch: "sch = [] \<or> (isascii_alpha (hd sch) \<and> list_all (\<lambda>c. c \<in> set scheme_chars) sch \<and>
                      str_lower sch = sch)"
  proof -
    from split_scheme_cases[OF ss] show ?thesis
    proof
      assume "sch0 = [] \<and> rest = url1" then show ?thesis using c(1) by simp
    next
      assume "\<exists>x. url1 = x @ CHR '':'' # rest \<and> x \<noteq> [] \<and> isascii_alpha (hd x) \<and>
              list_all (\<lambda>c. c \<in> set scheme_chars) x \<and> sch0 = str_lower x"
      then obtain x where x: "x \<noteq> []" "isascii_alpha (hd x)"
          "list_all (\<lambda>c. c \<in> set scheme_chars) x" "sch0 = str_lower x" by blast
      from x(1,3) have "hd x \<in> set scheme_chars" by (cases x) auto
      with x(1,2) have "isascii_alpha (hd (str_lower x))"
        by (cases x) (auto simp: str_lower_def scheme_char_facts)
      with x c(1) str_lower_scheme[OF x(3)] show ?thesis by simp
    qed
  qed
  have nl: "list_all ?nd nl" unfolding c(2) by (auto simp: list_all_iff dest: set_takeWhileD)
  have hp: "p = [] \<or> hd p = CHR ''/''"
  proof (cases p)
    case Nil then show ?thesis by simp
  next
    case (Cons a p')
    with c(9) have "?t \<noteq> []" "hd ?t = a" by auto
    from hd_dropWhile[OF this(1)] this(2) have "a \<in> set ''/?#''" by simp
    moreover have "a \<noteq> CHR ''?''" "a \<noteq> CHR ''#''" using c(6,7) Cons by auto
    ultimately show ?thesis using Cons by simp
  qed
  have "set ?nl \<subseteq> set rest" "set ?t \<subseteq> set rest"
    by (auto dest: set_takeWhileD set_dropWhileD in_set_dropD)
  with c(2-5) rest_sub have "set nl \<subseteq> set url1" "set p \<subseteq> set url1" "set q \<subseteq> set url1"
      "set f \<subseteq> set url1" by blast+
  then have "set (nl @ p @ q @ f) \<subseteq> set url1" by simp
  with safe1 have "list_all (\<lambda>c. c \<notin> set unsafe_url_bytes_to_remove) (nl @ p @ q @ f)"
    unfolding list_all_iff by blast
  with sch nl ok hp c show ?thesis by simp
qed

section \<open>What \<^verbatim>\<open>urlparse\<close> returns\<close>

lemma urlparse_canonical:
  assumes "urlparse ip u = Inr r" "netloc r \<noteq> []"
  shows "canonical ip r"
proof -
  from assms(1) obtain sch nl p q f where
    us: "urlsplit ip u = Inr (sch, nl, p, q, f)"
    by (auto simp: urlparse_def split: sum.splits)
  obtain pa prm where pp: "(if sch \<in> set uses_params \<and> CHR '';'' \<in> set p
                            then splitparams p else (p, [])) = (pa, prm)" by fastforce
  from assms(1) us pp have r: "r = \<lparr>scheme = sch, netloc = nl, path = pa, params = prm,
                                     query = q, fragment = f\<rparr>"
    by (simp add: urlparse_def)
  with assms(2) have "nl \<noteq> []" by simp
  from urlsplit_Inr[OF us this] have
    s: "sch = [] \<or> (isascii_alpha (hd sch) \<and> list_all (\<lambda>c. c \<in> set scheme_chars) sch \<and>
                      str_lower sch = sch)"
    and n: "list_all (\<lambda>c. c \<notin> set ''/?#'') nl" "brackets_ok ip nl"
    and p: "p = [] \<or> hd p = CHR ''/''" "CHR ''?'' \<notin> set p" "CHR ''#'' \<notin> set p"
    and q: "CHR ''#'' \<notin> set q"
    and u: "list_all (\<lambda>c. c \<notin> set unsafe_url_bytes_to_remove) (nl @ p @ q @ f)"
    by blast+
  have pa: "set pa \<subseteq> set p \<and> set prm \<subseteq> set p \<and> CHR ''/'' \<notin> set prm \<and>
            (pa = [] \<or> hd pa = CHR ''/'') \<and>
            (if sch \<in> set uses_params
             then CHR '';'' \<notin> set (last_segment pa) \<and> (pa = [] \<longrightarrow> prm = [])
             else prm = [])"
  proof (cases "sch \<in> set uses_params \<and> CHR '';'' \<in> set p")
    case False
    with pp have e: "pa = p" "prm = []" by auto
    with False p(1) set_last_segment[of p] show ?thesis by auto
  next
    case True
    with pp have sp: "splitparams p = (pa, prm)" by simp
    from True have "p \<noteq> []" by auto
    with p(1) have sl: "CHR ''/'' \<in> set p" by (cases p) auto
    from splitparams_cases[OF sp] True sl obtain r where
      c: "set pa \<subseteq> set p" "set prm \<subseteq> set p" "CHR ''/'' \<notin> set prm"
         "CHR '';'' \<notin> set (last_segment pa)" "pa \<noteq> []" "p = pa @ r" by blast
    from c(5,6) p(1) \<open>p \<noteq> []\<close> have "hd pa = CHR ''/''" by (cases pa) auto
    with c True show ?thesis by simp
  qed
  then have "list_all (\<lambda>c. c \<notin> set ''?#'') pa" "list_all (\<lambda>c. c \<notin> set ''/?#'') prm"
    using p(2,3) by (auto simp: list_all_iff)
  moreover have "list_all (\<lambda>c. c \<notin> set unsafe_url_bytes_to_remove) (nl @ pa @ prm @ q @ f)"
    using u pa unfolding list_all_iff by auto
  ultimately show ?thesis
    using s n q pa \<open>nl \<noteq> []\<close> unfolding canonical_def r by simp
qed

lemma set_urlencode:
  "x \<in> set (urlencode d) \<Longrightarrow> x \<in> set always_safe \<or> x \<in> set ''%+&=''"
proof (induction d rule: induct_list012)
  case 1 then show ?case by (simp add: urlencode_def)
next
  case (2 kv)
  then show ?case using set_quote_plus[of x] by (cases kv) (auto simp: urlencode_def)
next
  case (3 kv kv' d)
  then show ?case using set_quote_plus[of x] by (cases kv) (auto simp: urlencode_def)
qed

lemma canonical_query_update:
  assumes "canonical ip r"
  shows "canonical ip (r\<lparr>query := urlencode d\<rparr>)"
proof -
  have "x \<noteq> CHR ''#'' \<and> x \<notin> set unsafe_url_bytes_to_remove" if "x \<in> set (urlencode d)" for x
    using set_urlencode[OF that]
    by (auto simp: always_safe_def ascii_uppercase_def ascii_lowercase_def digits_def
                   unsafe_url_bytes_to_remove_def)
  then have "CHR ''#'' \<notin> set (urlencode d)"
       "list_all (\<lambda>c. c \<notin> set unsafe_url_bytes_to_remove) (urlencode d)"
    by (auto simp: list_all_iff)
  with assms show ?thesis by (simp add: canonical_def)
qed

section \<open>Parsing a joined URL\<close>

lemma alpha_not_c0: "isascii_alpha c \<Longrightarrow> \<not> c0_control_or_space c"
  by (auto simp: isascii_alpha_def ascii_lowercase_def ascii_uppercase_def c0_control_or_space_def)

lemma urlsplit_joined:
  assumes sch: "sch = [] \<or> (isascii_alpha (hd sch) \<and> list_all (\<lambda>c. c \<in> set scheme_chars) sch \<and>
                      str_lower sch = sch)"
    and nl: "nl \<noteq> []" "list_all (\<lambda>c. c \<notin> set ''/?#'') nl" "brackets_ok ip nl"
    and p: "p = [] \<or> hd p = CHR ''/''" "CHR ''?'' \<notin> set p" "CHR ''#'' \<notin> set p"
    and q: "CHR ''#'' \<notin> set q"
    and safe: "list_all (\<lambda>c. c \<notin> set unsafe_url_bytes_to_remove) (nl @ p @ q @ f)"
  shows "urlsplit ip (urlunsplit sch nl p q f) = Inr (sch, nl, p, q, f)"
proof -
  let ?t = "p @ (if q \<noteq> [] then ''?'' @ q else []) @ (if f \<noteq> [] then ''#'' @ f else [])"
  let ?rest = "''//'' @ nl @ ?t"
  let ?u = "(if sch \<noteq> [] then sch @ '':'' else []) @ ?rest"
  have un: "urlunsplit sch nl p q f = ?u"
    using nl(1) p(1) by (cases p) (auto simp: urlunsplit_def Let_def)
  have strip: "str_lstrip c0_control_or_space ?u = ?u"
  proof (cases sch)
    case Nil then show ?thesis by (simp add: str_lstrip_def c0_control_or_space_def)
  next
    case (Cons a s)
    with sch have "\<not> c0_control_or_space a" by (auto simp: alpha_not_c0)
    with Cons show ?thesis by (simp add: str_lstrip_def)
  qed
  have "\<forall>c\<in>set sch. c \<notin> set unsafe_url_bytes_to_remove"
    using sch scheme_char_facts(4) by (auto simp: list_all_iff)
  with safe have "\<forall>c\<in>set ?u. c \<notin> set unsafe_url_bytes_to_remove"
    by (auto simp: list_all_iff unsafe_url_bytes_to_remove_def)
  then have rem: "fold str_remove unsafe_url_bytes_to_remove ?u = ?u"
    unfolding fold_remove_unsafe by (simp only: filter_id_conv) 
  have ss: "split_scheme ?u = (sch, ?rest)"
  proof (cases "sch = []")
    case True
    then show ?thesis using split_scheme_slash[of "''/'' @ nl @ ?t"] by simp
  next
    case False
    with sch split_scheme_joined[of sch ?rest] show ?thesis by simp
  qed
  let ?nd = "\<lambda>c. c \<notin> set ''/?#''"
  have t: "?t = [] \<or> \<not> ?nd (hd ?t)"
    using p(1) by (cases p) auto
  have tw: "takeWhile ?nd (nl @ ?t) = nl"
    using nl(2) t by (cases ?t) (auto simp: list_all_iff takeWhile_append2 simp del: append_assoc)
  have dw: "dropWhile ?nd (nl @ ?t) = ?t"
    using nl(2) t by (cases ?t) (auto simp: list_all_iff dropWhile_append2 simp del: append_assoc)
  have "splitnetloc ?rest 2 = (takeWhile ?nd (drop 2 ?rest), dropWhile ?nd (drop 2 ?rest))"
    by (rule splitnetloc_eq) simp
  then have sn: "splitnetloc ?rest 2 = (nl, ?t)" using tw dw by simp
  have sfq: "split_fragment_query sch nl ?t = (sch, nl, p, q, f)"
    by (rule split_fragment_query_joined[OF p(2,3) q])
  have two: "take 2 ?rest = ''//''" by simp
  show ?thesis
    unfolding un urlsplit_def strip rem Let_def ss prod.case two sn
    using nl(3) sfq by (simp add: brackets_ok_def)
qed

lemma urlparse_urlunparse:
  assumes "canonical ip r"
  shows "urlparse ip (urlunparse r) = Inr r"
proof -
  let ?P = "if params r \<noteq> [] then path r @ '';'' @ params r else path r"
  from assms have
    sch: "scheme r = [] \<or> (isascii_alpha (hd (scheme r)) \<and>
            list_all (\<lambda>c. c \<in> set scheme_chars) (scheme r) \<and> str_lower (scheme r) = scheme r)"
    and nl: "netloc r \<noteq> []" "list_all (\<lambda>c. c \<notin> set ''/?#'') (netloc r)" "brackets_ok ip (netloc r)"
    and pa: "path r = [] \<or> hd (path r) = CHR ''/''" "list_all (\<lambda>c. c \<notin> set ''?#'') (path r)"
    and pr: "list_all (\<lambda>c. c \<notin> set ''/?#'') (params r)"
    and up: "if scheme r \<in> set uses_params
             then CHR '';'' \<notin> set (last_segment (path r)) \<and> (path r = [] \<longrightarrow> params r = [])
             else params r = []"
    and q: "CHR ''#'' \<notin> set (query r)"
    and safe: "list_all (\<lambda>c. c \<notin> set unsafe_url_bytes_to_remove)
                 (netloc r @ path r @ params r @ query r @ fragment r)"
    by (simp_all add: canonical_def)
  have pe: "path r = [] \<longrightarrow> params r = []" using up by (auto split: if_splits)
  have P1: "?P = [] \<or> hd ?P = CHR ''/''" using pa(1) pe by (cases "path r") auto
  have P2: "CHR ''?'' \<notin> set ?P" "CHR ''#'' \<notin> set ?P" using pa(2) pr by (auto simp: list_all_iff)
  have P3: "list_all (\<lambda>c. c \<notin> set unsafe_url_bytes_to_remove) (netloc r @ ?P @ query r @ fragment r)"
    using safe by (auto simp: list_all_iff unsafe_url_bytes_to_remove_def)
  have us: "urlsplit ip (urlunparse r) = Inr (scheme r, netloc r, ?P, query r, fragment r)"
    unfolding urlunparse_def by (rule urlsplit_joined[OF sch nl P1 P2 q P3])
  have sp: "(if scheme r \<in> set uses_params \<and> CHR '';'' \<in> set ?P then splitparams ?P else (?P, []))
              = (path r, params r)"
  proof (cases "scheme r \<in> set uses_params")
    case False
    with up show ?thesis by simp
  next
    case True
    with up have ls: "CHR '';'' \<notin> set (last_segment (path r))" by simp
    show ?thesis
    proof (cases "params r = []")
      case True
      then show ?thesis using ls splitparams_none[of "path r"] by auto
    next
      case False
      with pe have "path r \<noteq> []" by auto
      with pa(1) have "hd (path r) = CHR ''/''" by simp
      moreover have "CHR ''/'' \<notin> set (params r)" using pr by (auto simp: list_all_iff)
      ultimately have "splitparams (path r @ CHR '';'' # params r) = (path r, params r)"
        using \<open>path r \<noteq> []\<close> ls by (intro splitparams_joined)
      with False True show ?thesis by simp
    qed
  qed
  show ?thesis unfolding urlparse_def us by (simp only: sum.case prod.case sp Let_def) simp
qed

section \<open>The built URL read back; the dictionaries of the merge\<close>

lemma build_Inr:
  assumes "build_utm_url ip b pairs fl sm me oe = Inr u"
  obtains p where "b \<noteq> []" "urlparse ip (with_scheme b) = Inr p" "netloc p \<noteq> []"
    "u = urlunparse (p\<lparr>query := urlencode (final_params p pairs fl sm me oe)\<rparr>)"
  using assms
  by (auto simp: build_utm_url_def new_query_def Let_def split: if_splits sum.splits)

lemma build_reparse:
  assumes "urlparse ip (with_scheme b) = Inr p" "netloc p \<noteq> []"
  shows "urlparse ip (urlunparse (p\<lparr>query := urlencode d\<rparr>)) = Inr (p\<lparr>query := urlencode d\<rparr>)"
  by (intro urlparse_urlunparse canonical_query_update urlparse_canonical[OF assms])

lemma build_output_params:
  assumes "build_utm_url ip b pairs fl sm me oe = Inr u"
    and "urlparse ip (with_scheme b) = Inr p"
  shows "output_params ip u = final_params p pairs fl sm me oe"
proof -
  from assms(1) obtain p' where p': "urlparse ip (with_scheme b) = Inr p'" "netloc p' \<noteq> []"
    "u = urlunparse (p'\<lparr>query := urlencode (final_params p' pairs fl sm me oe)\<rparr>)"
    by (rule build_Inr)
  with assms(2) have [simp]: "p' = p" by simp
  from build_reparse[OF p'(1,2)] p'(3) show ?thesis
    by (simp add: output_params_def parse_qsl_urlencode)
qed

lemma utm_params_candidates:
  "utm_params fl sm oe existing pairs utm =
     fold (\<lambda>(k, v) d. AList.update k v d)
       (filter (\<lambda>c. oe \<or> fst c \<notin> fst ` set existing) (candidates fl sm pairs)) utm"
proof (induction pairs arbitrary: utm)
  case Nil show ?case by simp
next
  case (Cons kv pairs)
  obtain k v where kv: "kv = (k, v)" by (cases kv)
  obtain nk nv where n: "normalize_pair (Some k) v fl sm = (nk, nv)" by fastforce
  show ?case unfolding kv using n Cons.IH
    by (cases v; cases nk; cases nv) auto
qed

lemma in_set_update:
  "x \<in> set (AList.update k v al) \<Longrightarrow> x = (k, v) \<or> x \<in> set al"
  by (induction al) (auto split: if_splits)

lemma set_fold_update:
  "x \<in> set (fold (\<lambda>(k, v) d. AList.update k v d) xs acc) \<Longrightarrow> x \<in> set xs \<or> x \<in> set acc"
  by (induction xs arbitrary: acc) (auto dest: in_set_update)

lemma keys_fold_update:
  "map fst (fold (\<lambda>(k, v) d. AList.update k v d) xs acc) =
     map fst acc @ first_occurrences (filter (\<lambda>k. k \<notin> set (map fst acc)) (map fst xs))"
proof (induction xs arbitrary: acc)
  case Nil show ?case by simp
next
  case (Cons kv xs)
  obtain k v where kv: "kv = (k, v)" by (cases kv)
  show ?case
  proof (cases "k \<in> set (map fst acc)")
    case True
    then show ?thesis by (simp add: kv Cons.IH update_keys)
  next
    case False
    have "filter (\<lambda>y. y \<noteq> k) (filter (\<lambda>k. k \<notin> set (map fst acc)) (map fst xs))
          = filter (\<lambda>ka. ka \<notin> set (map fst acc @ [k])) (map fst xs)"
      by (auto intro: filter_cong)
    with False show ?thesis by (simp add: kv Cons.IH update_keys)
  qed
qed

lemma map_of_fold_update:
  "map_of (fold (\<lambda>(k, v) d. AList.update k v d) xs acc) = map_of acc ++ map_of (rev xs)"
proof (induction xs arbitrary: acc)
  case Nil show ?case by simp
next
  case (Cons kv xs)
  obtain k v where kv: "kv = (k, v)" by (cases kv)
  show ?case by (simp add: kv Cons.IH update_conv' map_add_upd_left fun_eq_iff map_add_def split: option.splits)
qed

section \<open>Normalized values are not blank\<close>

lemma str_strip_prefix: "\<exists>r. dropWhile isspace s = str_strip s @ r"
proof -
  let ?t = "dropWhile isspace s"
  have "?t = rev (dropWhile isspace (rev ?t)) @ rev (takeWhile isspace (rev ?t))"
    by (metis rev_append rev_rev_ident takeWhile_dropWhile_id)
  then show ?thesis unfolding str_strip_def by blast
qed

lemma str_strip_hd: "str_strip s \<noteq> [] \<Longrightarrow> \<not> isspace (hd (str_strip s))"
proof -
  assume ne: "str_strip s \<noteq> []"
  from str_strip_prefix[of s] obtain r where r: "dropWhile isspace s = str_strip s @ r" by blast
  with ne have "dropWhile isspace s \<noteq> []" "hd (dropWhile isspace s) = hd (str_strip s)" by auto
  with hd_dropWhile[of isspace s] show ?thesis by simp
qed

lemma str_strip_nonblank: "s \<noteq> [] \<Longrightarrow> \<not> isspace (hd s) \<Longrightarrow> str_strip s \<noteq> []"
proof -
  assume a: "s \<noteq> []" "\<not> isspace (hd s)"
  then have d: "dropWhile isspace s = s" by (cases s) auto
  have "\<not> isspace (last (rev s))" using a by (simp add: last_rev)
  then have "dropWhile isspace (rev s) \<noteq> []" using a
    by (metis dropWhile_eq_Nil_conv last_in_set rev_is_Nil_conv)
  then show ?thesis by (simp add: str_strip_def d)
qed

lemma lower_char_nonspace: "\<not> isspace c \<Longrightarrow> \<not> isspace (lower_char c)"
proof -
  have "lower_char c = c \<or> lower_char c \<in> set ascii_lowercase"
    by (auto simp: lower_char_def ascii_lowercase_def ascii_uppercase_def split: option.splits if_splits)
  moreover have "\<not> isspace x" if "x \<in> set ascii_lowercase" for x
    using that by (auto simp: ascii_lowercase_def isspace_def)
  ultimately show "\<not> isspace c \<Longrightarrow> \<not> isspace (lower_char c)" by auto
qed

lemma transform_nonblank:
  assumes "transform fl sm (Some s) = Some t" "t \<noteq> []"
  shows "str_strip t \<noteq> []"
proof -
  let ?a = "str_strip s"
  let ?b = "if fl then str_lower ?a else ?a"
  have t: "t = (if sm = ''underscore'' then str_replace (CHR '' '') (CHR ''_'') ?b
               else if sm = ''dash'' then str_replace (CHR '' '') (CHR ''-'') ?b else ?b)"
    using assms(1) by (simp add: transform_def Let_def)
  with assms(2) have a: "?a \<noteq> []" by (auto simp: str_replace_def str_lower_def split: if_splits)
  then have "\<not> isspace (hd ?a)" by (rule str_strip_hd)
  then have b: "?b \<noteq> [] \<and> \<not> isspace (hd ?b)"
    using a by (auto simp: str_lower_def hd_map lower_char_nonspace)
  then have "hd ?b \<noteq> CHR '' ''" by (auto simp: isspace_def)
  with b have "t \<noteq> [] \<and> \<not> isspace (hd t)"
    unfolding t by (auto simp: str_replace_def hd_map)
  then show ?thesis by (simp add: str_strip_nonblank)
qed

lemma candidates_nonblank:
  "(k, v) \<in> set (candidates fl sm pairs) \<Longrightarrow> str_strip v \<noteq> []"
proof (induction pairs)
  case Nil then show ?case by simp
next
  case (Cons kv pairs)
  obtain k0 v0 where kv: "kv = (k0, v0)" by (cases kv)
  obtain nk nv where n: "normalize_pair (Some k0) v0 fl sm = (nk, nv)" by fastforce
  show ?case
  proof (cases "(k, v) \<in> set (candidates fl sm pairs)")
    case True then show ?thesis by (rule Cons.IH)
  next
    case False
    with Cons.prems n obtain s where "v0 = Some s" "nv = Some v" "v \<noteq> []"
      unfolding kv by (cases v0; cases nk; cases nv) (auto split: if_splits)
    with n have "transform fl sm (Some s) = Some v" by (simp add: normalize_pair_def)
    then show ?thesis using \<open>v \<noteq> []\<close> by (rule transform_nonblank)
  qed
qed

lemma set_existing_params:
  "x \<in> set (existing_params me p) \<Longrightarrow> me \<and> x \<in> set (parse_qsl (query p) True)"
  by (auto simp: existing_params_def split: if_splits dest: set_fold_update)

lemma set_final_params:
  assumes "x \<in> set (final_params p pairs fl sm me oe)"
  shows "x \<in> set (candidates fl sm pairs) \<or> (me \<and> x \<in> set (parse_qsl (query p) True))"
proof -
  from assms have "x \<in> set (utm_params fl sm oe (existing_params me p) pairs []) \<or> x \<in> set (existing_params me p)"
    by (auto simp: final_params_def Let_def dest: set_fold_update)
  then show ?thesis
    by (auto simp: utm_params_candidates dest!: set_fold_update set_existing_params)
qed

section \<open>Order of the keys\<close>

lemma filter_first_occurrences:
  "filter P (first_occurrences xs) = first_occurrences (filter P xs)"
proof (induction xs rule: first_occurrences.induct)
  case 1 show ?case by simp
next
  case (2 x xs)
  show ?case
  proof (cases "P x")
    case True
    have "filter P (filter (\<lambda>y. y \<noteq> x) xs) = filter (\<lambda>y. y \<noteq> x) (filter P xs)"
      by (auto intro: filter_cong)
    with True 2 show ?thesis by simp
  next
    case False
    then have "filter P (filter (\<lambda>y. y \<noteq> x) xs) = filter P xs"
      by (auto intro: filter_cong)
    with False 2 show ?thesis by simp
  qed
qed

lemma first_occurrences_idem: "first_occurrences (first_occurrences xs) = first_occurrences xs"
proof (induction xs rule: first_occurrences.induct)
  case 1 show ?case by simp
next
  case (2 x xs)
  then show ?case by (simp add: filter_first_occurrences)
qed

lemma set_first_occurrences: "set (first_occurrences xs) = set xs"
  by (induction xs rule: first_occurrences.induct) auto

lemma keys_existing_params:
  "map fst (existing_params me p) =
     (if me then first_occurrences (map fst (parse_qsl (query p) True)) else [])"
  by (simp add: existing_params_def keys_fold_update parse_qsl_def)

lemma filter_keys_filter:
  "filter (\<lambda>k. k \<notin> K) (map fst (filter (\<lambda>c. oe \<or> fst c \<notin> K) xs))
     = filter (\<lambda>k. k \<notin> K) (map fst xs)"
  by (induction xs) auto

lemma keys_final_params:
  "map fst (final_params p pairs fl sm me oe) =
     map fst (existing_params me p) @
     first_occurrences (filter (\<lambda>k. k \<notin> set (map fst (existing_params me p)))
                               (map fst (candidates fl sm pairs)))"
proof -
  let ?E = "existing_params me p"
  let ?F = "filter (\<lambda>c. oe \<or> fst c \<notin> fst ` set ?E) (candidates fl sm pairs)"
  have utm: "map fst (utm_params fl sm oe ?E pairs []) = first_occurrences (map fst ?F)"
    by (simp add: utm_params_candidates keys_fold_update)
  have "filter (\<lambda>k. k \<notin> set (map fst ?E)) (map fst ?F)
         = filter (\<lambda>k. k \<notin> set (map fst ?E)) (map fst (candidates fl sm pairs))"
    using filter_keys_filter[of "set (map fst ?E)" oe] by simp
  then show ?thesis
    by (simp add: final_params_def Let_def keys_fold_update utm filter_first_occurrences
                  first_occurrences_idem del: set_map)
qed

section \<open>Building from a built URL\<close>

lemma https_scheme:
  "isascii_alpha (hd ''https'') \<and> list_all (\<lambda>c. c \<in> set scheme_chars) ''https'' \<and>
   str_lower ''https'' = ''https''"
  by (simp add: isascii_alpha_def scheme_chars_def str_lower_def lower_char_def
                ascii_lowercase_def ascii_uppercase_def digits_def)

lemma urlsplit_https:
  "\<exists>rest. fold str_remove unsafe_url_bytes_to_remove (str_lstrip c0_control_or_space (''https://'' @ w))
            = ''https://'' @ rest \<and>
          split_scheme (''https://'' @ rest) = (''https'', ''//'' @ rest) \<and>
          rest = filter (\<lambda>c. c \<notin> set unsafe_url_bytes_to_remove) w"
proof -
  let ?rest = "filter (\<lambda>c. c \<notin> set unsafe_url_bytes_to_remove) w"
  have "str_lstrip c0_control_or_space (''https://'' @ w) = ''https://'' @ w"
    by (simp add: str_lstrip_def c0_control_or_space_def)
  moreover have "fold str_remove unsafe_url_bytes_to_remove (''https://'' @ w)
                   = filter (\<lambda>c. c \<notin> set unsafe_url_bytes_to_remove) (''https://'' @ w)"
    by (rule fold_remove_unsafe)
  moreover have "filter (\<lambda>c. c \<notin> set unsafe_url_bytes_to_remove) (''https://'' @ w)
                   = ''https://'' @ ?rest"
    by (simp add: unsafe_url_bytes_to_remove_def)
  ultimately have "fold str_remove unsafe_url_bytes_to_remove
               (str_lstrip c0_control_or_space (''https://'' @ w)) = ''https://'' @ ?rest"
    by (simp only:)
  moreover have "split_scheme (''https'' @ CHR '':'' # (''//'' @ ?rest)) = (''https'', ''//'' @ ?rest)"
    using https_scheme by (intro split_scheme_joined) auto
  ultimately show ?thesis by simp
qed

lemma urlsplit_stages:
  assumes "fold str_remove unsafe_url_bytes_to_remove (str_lstrip c0_control_or_space u) = u1"
    and "split_scheme u1 = (sch, rest)"
  shows "urlsplit ip u =
     (if take 2 rest = ''//'' then
        (case splitnetloc rest 2 of (nl, t) \<Rightarrow>
           if \<not> brackets_ok ip nl then Inl UrlparseValueError
           else Inr (split_fragment_query sch nl t))
      else Inr (split_fragment_query sch [] rest))"
  by (auto simp: urlsplit_def Let_def assms brackets_ok_def split: prod.splits)

lemma urlparse_https_scheme:
  assumes "urlparse ip (''https://'' @ w) = Inr p"
  shows "scheme p = ''https''"
proof -
  from urlsplit_https[of w] obtain rest where
    r: "fold str_remove unsafe_url_bytes_to_remove (str_lstrip c0_control_or_space (''https://'' @ w))
            = ''https://'' @ rest" "split_scheme (''https://'' @ rest) = (''https'', ''//'' @ rest)"
    by blast
  from assms obtain sch nl pa q f where
    us: "urlsplit ip (''https://'' @ w) = Inr (sch, nl, pa, q, f)" and sp: "scheme p = sch"
    by (auto simp: urlparse_def Let_def split: sum.splits prod.splits)
  from us have "sch = ''https''"
    unfolding urlsplit_stages[OF r]
    by (auto simp: split_fragment_query_def Let_def split: prod.splits if_splits)
  with sp show ?thesis by simp
qed

lemma urlparse_https_empty_netloc:
  "\<exists>p. urlparse ip (''https://'' @ ''//'' @ w) = Inr p \<and> netloc p = []"
proof -
  from urlsplit_https[of "''//'' @ w"] obtain rest where
    r: "fold str_remove unsafe_url_bytes_to_remove
          (str_lstrip c0_control_or_space (''https://'' @ ''//'' @ w)) = ''https://'' @ rest"
       "split_scheme (''https://'' @ rest) = (''https'', ''//'' @ rest)"
       "rest = filter (\<lambda>c. c \<notin> set unsafe_url_bytes_to_remove) (''//'' @ w)"
    by blast
  from r(3) obtain w' where w': "rest = ''//'' @ w'"
    by (simp add: unsafe_url_bytes_to_remove_def)
  have sn: "splitnetloc (''//'' @ rest) 2 = ([], rest)"
    using splitnetloc_eq[of 2 "''//'' @ rest"] by (simp add: w')
  obtain a b c d e where sfq: "split_fragment_query ''https'' [] rest = (a, b, c, d, e)"
    using prod_cases5 by blast
  from split_fragment_query_cases[OF sfq] have "b = []" by simp
  have "brackets_ok ip []" by (simp add: brackets_ok_def)
  then have "urlsplit ip (''https://'' @ ''//'' @ w) = Inr (a, [], c, d, e)"
    unfolding urlsplit_stages[OF r(1,2)] using sn sfq \<open>b = []\<close> by (simp add: w')
  then show ?thesis by (auto simp: urlparse_def Let_def split: prod.splits)
qed

lemma urlparse_netloc_iff:
  "(\<exists>r. urlparse ip u = Inr r \<and> netloc r = nl) \<longleftrightarrow> (\<exists>s p q f. urlsplit ip u = Inr (s, nl, p, q, f))"
  by (auto simp: urlparse_def Let_def split: sum.splits prod.splits)

lemma https_empty_netloc_iff:
  "(\<exists>p. urlparse ip (''https://'' @ b) = Inr p \<and> netloc p = []) \<longleftrightarrow>
     (let b' = filter (\<lambda>c. c \<notin> set unsafe_url_bytes_to_remove) b
      in b' = [] \<or> hd b' \<in> set ''/?#'')"
proof -
  let ?nd = "\<lambda>c. c \<notin> set ''/?#''"
  from urlsplit_https[of b] obtain rest where
    r: "fold str_remove unsafe_url_bytes_to_remove (str_lstrip c0_control_or_space (''https://'' @ b))
          = ''https://'' @ rest"
       "split_scheme (''https://'' @ rest) = (''https'', ''//'' @ rest)"
       "rest = filter (\<lambda>c. c \<notin> set unsafe_url_bytes_to_remove) b"
    by blast
  have sn: "splitnetloc (''//'' @ rest) 2 = (takeWhile ?nd rest, dropWhile ?nd rest)"
    using splitnetloc_eq[of 2 "''//'' @ rest"] by simp
  have us: "urlsplit ip (''https://'' @ b) =
              (if \<not> brackets_ok ip (takeWhile ?nd rest) then Inl UrlparseValueError
               else Inr (split_fragment_query ''https'' (takeWhile ?nd rest) (dropWhile ?nd rest)))"
    unfolding urlsplit_stages[OF r(1,2)] using sn by simp
  have "(\<exists>s p q f. urlsplit ip (''https://'' @ b) = Inr (s, [], p, q, f)) \<longleftrightarrow> takeWhile ?nd rest = []"
  proof
    assume "\<exists>s p q f. urlsplit ip (''https://'' @ b) = Inr (s, [], p, q, f)"
    then obtain s p q f where
      "split_fragment_query ''https'' (takeWhile ?nd rest) (dropWhile ?nd rest) = (s, [], p, q, f)"
      unfolding us by (auto split: if_splits)
    from split_fragment_query_cases[OF this] show "takeWhile ?nd rest = []" by simp
  next
    assume e: "takeWhile ?nd rest = []"
    obtain s n p q f where sfq: "split_fragment_query ''https'' [] (dropWhile ?nd rest) = (s, n, p, q, f)"
      using prod_cases5 by blast
    from split_fragment_query_cases[OF sfq] have "n = []" by simp
    with sfq e show "\<exists>s p q f. urlsplit ip (''https://'' @ b) = Inr (s, [], p, q, f)"
      unfolding us by (simp add: brackets_ok_def)
  qed
  then show ?thesis
    unfolding urlparse_netloc_iff Let_def r(3)[symmetric]
    by (auto simp: takeWhile_eq_Nil_iff)
qed

lemma urlunparse_nonempty: "netloc r \<noteq> [] \<Longrightarrow> urlunparse r \<noteq> []"
  by (simp add: urlunparse_def urlunsplit_def Let_def)

lemma urlunparse_shape:
  assumes "netloc r \<noteq> []"
  shows "\<exists>w. urlunparse r = (if scheme r \<noteq> [] then scheme r @ '':'' else []) @ ''//'' @ w"
  using assms by (auto simp: urlunparse_def urlunsplit_def Let_def)

section \<open>Values after the merge\<close>

lemma map_of_rev_distinct: "distinct (map fst xs) \<Longrightarrow> map_of (rev xs) = map_of xs"
  by (induction xs) (auto simp: fun_eq_iff map_add_def image_iff split: option.splits dest: map_of_SomeD)

lemma map_of_filter_out: "a \<in> K \<Longrightarrow> map_of (filter (\<lambda>c. fst c \<notin> K) xs) a = None"
  by (induction xs) auto

lemma map_of_existing_params:
  "map_of (existing_params True p) = map_of (rev (parse_qsl (query p) True))"
  by (simp add: existing_params_def map_of_fold_update parse_qsl_def)

lemma map_of_final_params:
  "map_of (final_params p pairs fl sm me oe) =
     map_of (existing_params me p) ++
     map_of (rev (filter (\<lambda>c. oe \<or> fst c \<notin> fst ` set (existing_params me p))
                         (candidates fl sm pairs)))"
proof -
  let ?E = "existing_params me p"
  let ?utm = "utm_params fl sm oe ?E pairs []"
  have "distinct (map fst ?utm)" by (simp add: utm_params_candidates distinct_fold_update)
  then have "map_of (rev ?utm) = map_of ?utm" by (rule map_of_rev_distinct)
  also have "\<dots> = map_of (rev (filter (\<lambda>c. oe \<or> fst c \<notin> fst ` set ?E) (candidates fl sm pairs)))"
    by (simp add: utm_params_candidates map_of_fold_update)
  finally show ?thesis by (simp add: final_params_def Let_def map_of_fold_update)
qed

lemmas claim_defs = base_params_def output_params_def ascii_input_def ascii_def

section \<open>The claims about \<^verbatim>\<open>normalize_pair\<close> and \<^verbatim>\<open>build_utm_url\<close>\<close>

text \<open>
  In the theorems below \<open>ip\<close> is the parameter \<open>is_ipv6\<close>, and \<open>fl\<close>, \<open>sm\<close>, \<open>me\<close> and
  \<open>oe\<close> are \<^verbatim>\<open>force_lower\<close>, \<^verbatim>\<open>space_mode\<close>, \<^verbatim>\<open>merge_existing\<close> and \<^verbatim>\<open>override_existing\<close>.
  The hypothesis \<open>ascii_input\<close> confines a statement about arbitrary inputs to the
  strings the embedding speaks about. The parameters of a built URL are those that
  \<^verbatim>\<open>urlparse\<close> and \<^verbatim>\<open>parse_qsl\<close> read in it (\<open>output_params\<close>).
\<close>

text \<open>
  C1, as the code has it: \<^verbatim>\<open>build_utm_url\<close> raises the invalid-base error exactly when
  the base URL is not empty and, after scheme inference, parses to an empty authority
  (on the empty string the empty-base error comes first). For a base URL without
  \<^verbatim>\<open>"://"\<close> that is: once its tabs, carriage returns and line feeds are dropped, nothing
  is left of it, or it starts with a slash, a question mark or a hash.
\<close>

theorem invalid_base_error_iff:
  "(build_utm_url ip base_url pairs fl sm me oe = Inl InvalidBaseURLError \<longleftrightarrow>
      base_url \<noteq> [] \<and> (\<exists>p. urlparse ip (with_scheme base_url) = Inr p \<and> netloc p = [])) \<and>
   (\<not> str_contains ''://'' base_url \<longrightarrow>
      (build_utm_url ip base_url pairs fl sm me oe = Inl InvalidBaseURLError \<longleftrightarrow>
         base_url \<noteq> [] \<and>
         (let b = filter (\<lambda>c. c \<notin> set unsafe_url_bytes_to_remove) base_url
          in b = [] \<or> hd b \<in> set ''/?#'')))"
proof -
  have 1: "build_utm_url ip base_url pairs fl sm me oe = Inl InvalidBaseURLError \<longleftrightarrow>
      base_url \<noteq> [] \<and> (\<exists>p. urlparse ip (with_scheme base_url) = Inr p \<and> netloc p = [])"
    by (auto simp: build_utm_url_def Let_def split: sum.splits if_splits dest: urlparse_error)
  have "with_scheme base_url = ''https://'' @ base_url" if "\<not> str_contains ''://'' base_url"
    using that by (simp add: with_scheme_def)
  with 1 https_empty_netloc_iff[of ip base_url] show ?thesis by simp
qed

theorem invalid_base_error_iff_witness:
  "\<not> str_contains ''://'' ''/landing'' \<and>
   build_utm_url (\<lambda>_. False) ''/landing'' [(''utm_source'', Some ''x'')] True ''underscore'' True True
     = Inl InvalidBaseURLError"
proof -
  have h: "\<not> str_contains ''://'' ''/landing''" by simp
  have "''/landing'' \<noteq> [] \<and>
         (let b = filter (\<lambda>c. c \<notin> set unsafe_url_bytes_to_remove) ''/landing''
          in b = [] \<or> hd b \<in> set ''/?#'')"
    by (simp add: unsafe_url_bytes_to_remove_def)
  with invalid_base_error_iff[THEN conjunct2, THEN mp, OF h] h show ?thesis by blast
qed

text \<open>
  C1 as stated fails at its own example: \<^verbatim>\<open>"utm_source=foo"\<close> has no \<^verbatim>\<open>"://"\<close>, so it is
  parsed as \<^verbatim>\<open>"https://utm_source=foo"\<close>, whose authority is \<^verbatim>\<open>"utm_source=foo"\<close>, and a URL
  is returned.
\<close>

theorem utm_source_foo_counterexample:
  "build_utm_url (\<lambda>_. False) ''utm_source=foo'' [(''utm_source'', Some ''x'')] True ''underscore'' True True
     = Inr ''https://utm_source=foo?utm_source=x''"
  by (simp add: str_defs quote_defs url_defs core_defs Let_def)

text \<open>
  C2, as the code has it: \<^verbatim>\<open>build_utm_url\<close> raises the empty-base error exactly on the
  empty string. The test is \<^verbatim>\<open>if not base_url\<close>; trimming is left to the caller
  (\<^verbatim>\<open>on_generate\<close> strips the field before the call), so a base of white space only is
  not rejected as empty by \<^verbatim>\<open>build_utm_url\<close>.
\<close>

theorem empty_base_error_iff:
  "build_utm_url ip base_url pairs fl sm me oe = Inl EmptyBaseURLError \<longleftrightarrow> base_url = []"
  by (auto simp: build_utm_url_def Let_def split: sum.splits if_splits dest: urlparse_error)

theorem empty_base_error_iff_witness:
  "build_utm_url (\<lambda>_. False) [] [(''utm_source'', Some ''x'')] True ''underscore'' True True
     = Inl EmptyBaseURLError"
  by (rule iffD2 [OF empty_base_error_iff]) (rule refl)

text \<open>
  C2 as stated fails: on a base URL of two spaces, \<^verbatim>\<open>"https://"\<close> is prepended, the
  authority is the two spaces, and a URL is returned.
\<close>

theorem whitespace_base_counterexample:
  "build_utm_url (\<lambda>_. False) ''  '' [(''utm_source'', Some ''x'')] True ''underscore'' True True
     = Inr ''https://  ?utm_source=x''"
  by (simp add: str_defs quote_defs url_defs core_defs Let_def)

text \<open>
  C3, as the code has it: in the query of a built URL, a parameter whose value trims
  to the empty string is a parameter of the base URL's own query, kept because
  \<^verbatim>\<open>merge_existing\<close> is set (the existing query is read with \<^verbatim>\<open>keep_blank_values=True\<close>);
  it never comes from the supplied pairs, whose blank values are skipped.
\<close>

theorem blank_values_only_from_base:
  assumes "ascii_input ip base_url pairs"
    and "build_utm_url ip base_url pairs fl sm me oe = Inr u"
    and "(k, v) \<in> set (output_params ip u)"
    and "str_strip v = []"
  shows "me \<and> (k, v) \<in> set (base_params ip base_url) \<and> (k, v) \<notin> set (candidates fl sm pairs)"
proof -
  from assms(2) obtain p where p: "urlparse ip (with_scheme base_url) = Inr p" by (rule build_Inr)
  from build_output_params[OF assms(2) p] assms(3)
  have "(k, v) \<in> set (final_params p pairs fl sm me oe)" by simp
  from set_final_params[OF this] candidates_nonblank[of k v fl sm pairs] assms(4) p
  show ?thesis by (auto simp: base_params_def)
qed

theorem blank_values_only_from_base_witness:
  "ascii_input (\<lambda>_. False) ''https://example.com/?a='' [(''utm_source'', Some ''  '')] \<and>
   build_utm_url (\<lambda>_. False) ''https://example.com/?a='' [(''utm_source'', Some ''  '')]
      True ''underscore'' True True = Inr ''https://example.com/?a='' \<and>
   (''a'', []) \<in> set (output_params (\<lambda>_. False) ''https://example.com/?a='') \<and>
   str_strip [] = [] \<and>
   (''a'', []) \<in> set (base_params (\<lambda>_. False) ''https://example.com/?a='') \<and>
   (''a'', []) \<notin> set (candidates True ''underscore'' [(''utm_source'', Some ''  '')])"
proof -
  have h1: "ascii_input (\<lambda>_. False) ''https://example.com/?a='' [(''utm_source'', Some ''  '')]"
    by (simp add: str_defs quote_defs url_defs core_defs claim_defs Let_def)
  have h2: "build_utm_url (\<lambda>_. False) ''https://example.com/?a='' [(''utm_source'', Some ''  '')]
      True ''underscore'' True True = Inr ''https://example.com/?a=''"
    by (simp add: str_defs quote_defs url_defs core_defs Let_def)
  have h3: "(''a'', []) \<in> set (output_params (\<lambda>_. False) ''https://example.com/?a='')"
    by (simp add: str_defs quote_defs url_defs core_defs claim_defs Let_def)
  have h4: "str_strip [] = []" by (simp add: str_strip_def)
  from blank_values_only_from_base[OF h1 h2 h3 h4] h1 h2 h3 h4 show ?thesis by simp
qed

text \<open>
  C3 as stated fails: the base URL \<^verbatim>\<open>https://example.com/?a=\<close> is built, with
  \<^verbatim>\<open>merge_existing\<close>, into a URL whose query still has \<open>a\<close> with the empty value.
\<close>

theorem blank_existing_value_counterexample:
  "build_utm_url (\<lambda>_. False) ''https://example.com/?a='' [] True ''underscore'' True True
     = Inr ''https://example.com/?a='' \<and>
   output_params (\<lambda>_. False) ''https://example.com/?a='' = [(''a'', [])] \<and>
   str_strip [] = []"
  by (simp add: str_defs quote_defs url_defs core_defs claim_defs Let_def)

text \<open>
  C4: with \<^verbatim>\<open>merge_existing\<close> set, when the base URL's query gives the key \<open>a\<close> the
  value \<open>x\<close> and the candidate pairs give it the value \<open>y\<close> (for a repeated key the last
  occurrence counts, on both sides), the query of the built URL maps \<open>a\<close> to \<open>y\<close> if
  \<^verbatim>\<open>override_existing\<close> is set and to \<open>x\<close> if not. The claim is the case \<open>a\<close>, \<open>1\<close>, \<open>2\<close>.
\<close>

theorem override_policy:
  assumes "ascii_input ip base_url pairs"
    and "build_utm_url ip base_url pairs fl sm True oe = Inr u"
    and "map_of (rev (base_params ip base_url)) a = Some x"
    and "map_of (rev (candidates fl sm pairs)) a = Some y"
  shows "map_of (output_params ip u) a = Some (if oe then y else x)"
proof -
  from assms(2) obtain p where p: "urlparse ip (with_scheme base_url) = Inr p" by (rule build_Inr)
  let ?E = "existing_params True p"
  from assms(3) p have ex: "map_of ?E a = Some x"
    by (simp add: map_of_existing_params base_params_def)
  then have inE: "a \<in> fst ` set ?E" by (meson domI domIff map_of_eq_None_iff)
  have out: "output_params ip u = final_params p pairs fl sm True oe"
    by (rule build_output_params[OF assms(2) p])
  show ?thesis
  proof (cases oe)
    case True
    with assms(4) show ?thesis by (simp add: out map_of_final_params map_add_def)
  next
    case False
    have "map_of (rev (filter (\<lambda>c. fst c \<notin> fst ` set ?E) (candidates fl sm pairs))) a = None"
      using map_of_filter_out[OF inE, of "rev (candidates fl sm pairs)"] by (simp add: rev_filter)
    with False ex show ?thesis by (simp add: out map_of_final_params map_add_def)
  qed
qed

theorem override_policy_witness:
  "ascii_input (\<lambda>_. False) ''https://example.com/?a=1'' [(''A '', Some '' 2'')] \<and>
   build_utm_url (\<lambda>_. False) ''https://example.com/?a=1'' [(''A '', Some '' 2'')]
      True ''underscore'' True True = Inr ''https://example.com/?a=2'' \<and>
   build_utm_url (\<lambda>_. False) ''https://example.com/?a=1'' [(''A '', Some '' 2'')]
      True ''underscore'' True False = Inr ''https://example.com/?a=1'' \<and>
   map_of (output_params (\<lambda>_. False) ''https://example.com/?a=2'') ''a'' = Some ''2'' \<and>
   map_of (output_params (\<lambda>_. False) ''https://example.com/?a=1'') ''a'' = Some ''1''"
proof -
  let ?b = "''https://example.com/?a=1''"
  let ?pairs = "[(''A '', Some '' 2'')]"
  have h1: "ascii_input (\<lambda>_. False) ?b ?pairs"
    by (simp add: str_defs quote_defs url_defs core_defs claim_defs Let_def)
  have h2: "build_utm_url (\<lambda>_. False) ?b ?pairs True ''underscore'' True True
              = Inr ''https://example.com/?a=2''"
    by (simp add: str_defs quote_defs url_defs core_defs Let_def)
  have h2': "build_utm_url (\<lambda>_. False) ?b ?pairs True ''underscore'' True False
              = Inr ''https://example.com/?a=1''"
    by (simp add: str_defs quote_defs url_defs core_defs Let_def)
  have h3: "map_of (rev (base_params (\<lambda>_. False) ?b)) ''a'' = Some ''1''"
    by (simp add: str_defs quote_defs url_defs core_defs claim_defs Let_def)
  have h4: "map_of (rev (candidates True ''underscore'' ?pairs)) ''a'' = Some ''2''"
    by (simp add: str_defs core_defs Let_def)
  from override_policy[OF h1 h2 h3 h4] override_policy[OF h1 h2' h3 h4] h1 h2 h2'
  show ?thesis by simp
qed

text \<open>
  C5, as the code has it: the keys of the query of a built URL are the keys of the base
  URL's query (when \<^verbatim>\<open>merge_existing\<close> is set), each once, in the order of their first
  occurrence, an overridden key keeping its place; then the keys of the candidate
  pairs that are not among them, each once, in the order the pairs were supplied.
\<close>

theorem output_key_order:
  assumes "ascii_input ip base_url pairs"
    and "build_utm_url ip base_url pairs fl sm me oe = Inr u"
  shows "map fst (output_params ip u) =
           (let existing_keys = (if me then first_occurrences (map fst (base_params ip base_url))
                                 else [])
            in existing_keys @
               first_occurrences (filter (\<lambda>k. k \<notin> set existing_keys)
                                         (map fst (candidates fl sm pairs))))"
proof -
  from assms(2) obtain p where p: "urlparse ip (with_scheme base_url) = Inr p" by (rule build_Inr)
  from build_output_params[OF assms(2) p] show ?thesis
    by (simp add: keys_final_params keys_existing_params base_params_def p Let_def del: set_map)
qed

theorem output_key_order_witness:
  "ascii_input (\<lambda>_. False) ''https://example.com/?a=1&b=2&a=3''
      [(''C'', Some ''3''), (''a'', Some ''9''), (''c'', Some ''4'')] \<and>
   build_utm_url (\<lambda>_. False) ''https://example.com/?a=1&b=2&a=3''
      [(''C'', Some ''3''), (''a'', Some ''9''), (''c'', Some ''4'')] True ''underscore'' True True
     = Inr ''https://example.com/?a=9&b=2&c=4'' \<and>
   map fst (output_params (\<lambda>_. False) ''https://example.com/?a=9&b=2&c=4'') = [''a'', ''b'', ''c'']"
proof -
  let ?b = "''https://example.com/?a=1&b=2&a=3''"
  let ?pairs = "[(''C'', Some ''3''), (''a'', Some ''9''), (''c'', Some ''4'')]"
  have h1: "ascii_input (\<lambda>_. False) ?b ?pairs"
    by (simp add: str_defs quote_defs url_defs core_defs claim_defs Let_def)
  have h2: "build_utm_url (\<lambda>_. False) ?b ?pairs True ''underscore'' True True
              = Inr ''https://example.com/?a=9&b=2&c=4''"
    by (simp add: str_defs quote_defs url_defs core_defs Let_def)
  have c: "candidates True ''underscore'' ?pairs = [(''c'', ''3''), (''a'', ''9''), (''c'', ''4'')]"
    by (simp add: str_defs core_defs Let_def)
  have b: "base_params (\<lambda>_. False) ?b = [(''a'', ''1''), (''b'', ''2''), (''a'', ''3'')]"
    by (simp add: str_defs quote_defs url_defs core_defs claim_defs Let_def)
  from output_key_order[OF h1 h2] have
    "map fst (output_params (\<lambda>_. False) ''https://example.com/?a=9&b=2&c=4'') = [''a'', ''b'', ''c'']"
    unfolding c b by simp
  with h1 h2 show ?thesis by simp
qed

text \<open>
  C5 as stated fails: with the existing query \<^verbatim>\<open>a=1&b=2\<close> and the pair \<open>a = 9\<close> under
  \<^verbatim>\<open>override_existing\<close>, the overridden \<open>a\<close> stays before the kept \<open>b\<close> (\<^verbatim>\<open>dict.update\<close>
  stores into the existing key), where the claim puts the kept \<open>b\<close> first.
\<close>

theorem overridden_key_keeps_place_counterexample:
  "build_utm_url (\<lambda>_. False) ''https://example.com/?a=1&b=2'' [(''a'', Some ''9'')]
      True ''underscore'' True True = Inr ''https://example.com/?a=9&b=2''"
  by (simp add: str_defs quote_defs url_defs core_defs Let_def)

text \<open>
  C6, as the code has it: a built URL, given back to \<^verbatim>\<open>build_utm_url\<close> with no pairs
  and \<^verbatim>\<open>merge_existing\<close> set, comes back unchanged, character by character, when it
  contains \<^verbatim>\<open>"://"\<close>; when it does not, \<^verbatim>\<open>"https://"\<close> is prepended to it and the call
  fails with the invalid-base error. A URL built from a base without \<^verbatim>\<open>"://"\<close> always
  contains it.
\<close>

theorem rebuild_without_pairs:
  assumes "ascii_input ip base_url pairs"
    and "build_utm_url ip base_url pairs fl sm me oe = Inr u"
  shows "build_utm_url ip u [] fl' sm' True oe' =
           (if str_contains ''://'' u then Inr u else Inl InvalidBaseURLError) \<and>
         (\<not> str_contains ''://'' base_url \<longrightarrow> str_contains ''://'' u)"
proof -
  from assms(2) obtain p where p: "base_url \<noteq> []" "urlparse ip (with_scheme base_url) = Inr p"
    "netloc p \<noteq> []" "u = urlunparse (p\<lparr>query := urlencode (final_params p pairs fl sm me oe)\<rparr>)"
    by (rule build_Inr)
  let ?final = "final_params p pairs fl sm me oe"
  let ?r = "p\<lparr>query := urlencode ?final\<rparr>"
  have nl: "netloc ?r \<noteq> []" using p(3) by simp
  have ne: "u \<noteq> []" unfolding p(4) by (rule urlunparse_nonempty[OF nl])
  from urlunparse_shape[OF nl] obtain w where
    w: "u = (if scheme p \<noteq> [] then scheme p @ '':'' else []) @ ''//'' @ w"
    unfolding p(4) by auto
  have first: "build_utm_url ip u [] fl' sm' True oe' =
           (if str_contains ''://'' u then Inr u else Inl InvalidBaseURLError)"
  proof (cases "str_contains ''://'' u")
    case True
    then have ws: "with_scheme u = u" by (simp add: with_scheme_def)
    have rp: "urlparse ip u = Inr ?r" unfolding p(4) by (rule build_reparse[OF p(2,3)])
    have "final_params ?r [] fl' sm' True oe' = existing_params True ?r"
      by (simp add: final_params_def)
    also have "\<dots> = ?final" by (rule existing_params_reparse[OF distinct_final_params])
    finally have "new_query ?r [] fl' sm' True oe' = urlencode ?final" by (simp add: new_query_def)
    then have "?r\<lparr>query := new_query ?r [] fl' sm' True oe'\<rparr> = ?r" by simp
    with True ne ws rp nl p(4) show ?thesis by (simp add: build_utm_url_def Let_def)
  next
    case False
    have "scheme p = []"
    proof (rule ccontr)
      assume "scheme p \<noteq> []"
      with w have "u = scheme p @ ''://'' @ w" by simp
      then have "str_contains ''://'' u" by (simp only: str_contains_append)
      with False show False by simp
    qed
    with w have "u = ''//'' @ w" by simp
    with False have "with_scheme u = ''https://'' @ ''//'' @ w" by (simp add: with_scheme_def)
    with urlparse_https_empty_netloc[of ip w] obtain p' where
      "urlparse ip (with_scheme u) = Inr p'" "netloc p' = []" by auto
    with False ne show ?thesis by (simp add: build_utm_url_def)
  qed
  have second: "str_contains ''://'' u" if "\<not> str_contains ''://'' base_url"
  proof -
    from that p(2) have "urlparse ip (''https://'' @ base_url) = Inr p" by (simp add: with_scheme_def)
    then have "scheme p = ''https''" by (rule urlparse_https_scheme)
    with w have "u = ''https'' @ ''://'' @ w" by simp
    then show ?thesis by (simp only: str_contains_append)
  qed
  from first second show ?thesis by blast
qed

theorem rebuild_without_pairs_witness:
  "ascii_input (\<lambda>_. False) ''example.com/page?a=1'' [(''utm_source'', Some ''Paid Search'')] \<and>
   build_utm_url (\<lambda>_. False) ''example.com/page?a=1'' [(''utm_source'', Some ''Paid Search'')]
      True ''keep'' True True = Inr ''https://example.com/page?a=1&utm_source=paid+search'' \<and>
   build_utm_url (\<lambda>_. False) ''https://example.com/page?a=1&utm_source=paid+search'' []
      True ''keep'' True True = Inr ''https://example.com/page?a=1&utm_source=paid+search''"
proof -
  let ?b = "''example.com/page?a=1''"
  let ?pairs = "[(''utm_source'', Some ''Paid Search'')]"
  let ?u = "''https://example.com/page?a=1&utm_source=paid+search''"
  have h1: "ascii_input (\<lambda>_. False) ?b ?pairs"
    by (simp add: str_defs quote_defs url_defs core_defs claim_defs Let_def)
  have h2: "build_utm_url (\<lambda>_. False) ?b ?pairs True ''keep'' True True = Inr ?u"
    by (simp add: str_defs quote_defs url_defs core_defs Let_def)
  have h3: "str_contains ''://'' ?u" by simp
  from rebuild_without_pairs[OF h1 h2, of True "''keep''" True] h3
  have "build_utm_url (\<lambda>_. False) ?u [] True ''keep'' True True = Inr ?u" by (simp only: if_True)
  with h1 h2 show ?thesis by simp
qed

text \<open>
  C6 as stated fails: the base \<^verbatim>\<open>//host?x=://\<close> contains \<^verbatim>\<open>"://"\<close>, in its query only, so
  it is parsed as it is, without a scheme; in the built URL the query is
  percent-encoded, no \<^verbatim>\<open>"://"\<close> is left, and the second call parses
  \<^verbatim>\<open>https:////host?...\<close>, which has an empty authority.
\<close>

theorem rebuild_counterexample:
  "build_utm_url (\<lambda>_. False) ''//host?x=://'' [] True ''underscore'' True True
     = Inr ''//host?x=%3A%2F%2F'' \<and>
   build_utm_url (\<lambda>_. False) ''//host?x=%3A%2F%2F'' [] True ''underscore'' True True
     = Inl InvalidBaseURLError"
  by (simp add: str_defs quote_defs url_defs core_defs Let_def)










end
